theory Spec2Isabelle
  imports Main
begin

section \<open>The router of \<^verbatim>\<open>src/router/index.js\<close>\<close>

text \<open>
  The class \<^verbatim>\<open>Router\<close> keeps a table of compiled routes, the current route and the
  current context, and drives the browser's history, the document title and the
  \<^verbatim>\<open>route-changed\<close> event. The model passes the router and the part of the browser it
  touches around as one record and returns it updated. A thrown exception (a rejected
  promise of the \<^verbatim>\<open>async\<close> method \<^verbatim>\<open>navigate\<close>) is the value \<open>Inl e\<close>, returned with the
  state as the assignments made before the throw left it: the source has no
  \<^verbatim>\<open>try\<close>/\<^verbatim>\<open>catch\<close>/\<^verbatim>\<open>finally\<close>. One call of \<^verbatim>\<open>navigate\<close> is run from its
  first statement to its last without another call interleaving at an \<^verbatim>\<open>await\<close>.
  The functions a caller supplies (hooks, guard conditions, title and render functions)
  are functions of their arguments: they read and write neither the router nor the
  browser.
\<close>

subsection \<open>Data\<close>

text \<open>
  A JavaScript object whose values are strings (\<^verbatim>\<open>params\<close>, \<^verbatim>\<open>query\<close>) is a map from keys
  to values; \<^verbatim>\<open>{}\<close> is the empty map.
\<close>

type_synonym object = "string \<rightharpoonup> string"

text \<open>A \<^verbatim>\<open>URL\<close> object, with the three properties the router reads.\<close>

record url =
  href :: string
  pathname :: string
  search :: string

text \<open>The typedef \<^verbatim>\<open>Context\<close>.\<close>

record Context =
  url :: url
  title :: string
  params :: object
  query :: object

text \<open>The value a hook throws.\<close>

type_synonym exn = string

text \<open>
  What \<^verbatim>\<open>shouldNavigate\<close> returns: \<^verbatim>\<open>condition\<close> is called without arguments and
  awaited, so it is the value it yields or the exception it throws.
\<close>

record guard =
  condition :: "exn + bool"
  redirect :: string

text \<open>
  The typedef \<^verbatim>\<open>Plugin\<close>. Each hook may be absent (\<open>None\<close>); a hook is a function of
  the context it is called with, and either returns or throws (\<open>Inl\<close>).
  \<^verbatim>\<open>shouldNavigate\<close> may return a falsy value (\<open>Inr None\<close>). A plugin that is
  \<^verbatim>\<open>null\<close> or \<^verbatim>\<open>undefined\<close> (the source calls \<^verbatim>\<open>plugin?.hook?.(...)\<close>) behaves as the plugin
  with the three hooks absent.
\<close>

record Plugin =
  shouldNavigate :: "(Context \<Rightarrow> exn + guard option) option"
  beforeNavigation :: "(Context \<Rightarrow> exn + unit) option"
  afterNavigation :: "(Context \<Rightarrow> exn + unit) option"

text \<open>
  \<^verbatim>\<open>title: string | ((context: Context) => string)\<close>. The function is called with
  \<^verbatim>\<open>{params, query, url}\<close>.
\<close>

datatype title_def = Literal string | Computed "object \<Rightarrow> object \<Rightarrow> url \<Rightarrow> string"

text \<open>
  The typedef \<^verbatim>\<open>Route\<close>: a \<^verbatim>\<open>RouteDefinition\<close> with its compiled \<^verbatim>\<open>urlPattern\<close>.
  \<open>urlPattern r u\<close> is \<^verbatim>\<open>r.urlPattern.exec(u)\<close>: \<open>None\<close> for \<^verbatim>\<open>null\<close>, else the match's
  \<^verbatim>\<open>pathname.groups\<close>. \<^verbatim>\<open>render\<close> and \<^verbatim>\<open>plugins\<close> are optional; what \<^verbatim>\<open>render\<close>
  returns is opaque (\<open>'r\<close>).
\<close>

record 'r Route =
  path :: string
  route_title :: title_def
  render :: "(Context \<Rightarrow> 'r) option"
  route_plugins :: "Plugin list option"
  urlPattern :: "url \<Rightarrow> object option"

text \<open>The constructor's \<^verbatim>\<open>config\<close>, without the route definitions it compiles.\<close>

record config =
  cfg_fallback :: "string option"
  cfg_plugins :: "Plugin list option"

text \<open>
  The router (\<^verbatim>\<open>this.config\<close>, \<^verbatim>\<open>this.routes\<close>, \<^verbatim>\<open>this.context\<close>, \<^verbatim>\<open>this.route\<close>) and the
  browser state it reads and writes: \<^verbatim>\<open>window.location\<close>, the entries pushed with
  \<^verbatim>\<open>window.history.pushState\<close> (oldest first), \<^verbatim>\<open>document.title\<close>, and the contexts of
  the \<^verbatim>\<open>route-changed\<close> events dispatched (oldest first).
\<close>

record 'r router =
  this_config :: config
  this_routes :: "'r Route list"
  this_context :: Context
  this_route :: "'r Route option"
  location :: url
  history :: "string list"
  document_title :: string
  events :: "Context list"

text \<open>
  The browser primitives the router calls, given as parameters:
  \<^item> \<open>URL_new s base\<close> is \<^verbatim>\<open>new URL(s)\<close> or \<^verbatim>\<open>new URL(s, base)\<close>, \<open>None\<close> when the
    constructor throws its \<^verbatim>\<open>TypeError\<close>;
  \<^item> \<open>URLSearchParams s\<close> are the entries of \<^verbatim>\<open>new URLSearchParams(s)\<close>, in order;
  \<^item> \<open>document_baseURI l\<close> is \<^verbatim>\<open>document.baseURI\<close> when the document's URL is \<open>l\<close>;
  \<^item> \<open>pushState_url l s\<close> is the document's URL after \<^verbatim>\<open>pushState(null, '', s)\<close> at the
    URL \<open>l\<close>.
\<close>

record env =
  URL_new :: "string \<Rightarrow> string option \<Rightarrow> url option"
  URLSearchParams :: "string \<Rightarrow> (string \<times> string) list"
  document_baseURI :: "url \<Rightarrow> string"
  pushState_url :: "url \<Rightarrow> string \<Rightarrow> url"

text \<open>
  Exceptions: the \<^verbatim>\<open>TypeError\<close> of the runtime (an invalid URL, a call of
  \<^verbatim>\<open>undefined\<close>), the router's own \<^verbatim>\<open>Error\<close> for a URL no route matches, and what a hook
  threw, with the hook it came from.
\<close>

datatype hook = ShouldNavigate | Condition | BeforeNavigation | AfterNavigation

datatype error = TypeError | Unroutable url | HookError hook exn

text \<open>\<^verbatim>\<open>navigate(url)\<close> takes a string or a \<^verbatim>\<open>URL\<close>.\<close>

datatype target = Str string | Url url

subsection \<open>Getters\<close>

text \<open>\<^verbatim>\<open>get url() { return new URL(window.location.href) }\<close>\<close>

definition get_url :: "'r router \<Rightarrow> url" where
  "get_url s = location s"

text \<open>\<^verbatim>\<open>get baseUrl() { return new URL('./', document.baseURI) }\<close>; \<open>None\<close> when it throws.\<close>

definition get_baseUrl :: "env \<Rightarrow> 'r router \<Rightarrow> url option" where
  "get_baseUrl E s = URL_new E ''./'' (Some (document_baseURI E (location s)))"

text \<open>\<^verbatim>\<open>new URL(x, this.baseUrl)\<close>\<close>

definition URL_in_base :: "env \<Rightarrow> 'r router \<Rightarrow> string \<Rightarrow> url option" where
  "URL_in_base E s x =
     (case get_baseUrl E s of
        None \<Rightarrow> None
      | Some b \<Rightarrow> URL_new E x (Some (href b)))"

text \<open>
  \<^verbatim>\<open>get fallback() { return new URL(this.config?.fallback || '/', this.baseUrl) }\<close>:
  an absent or empty \<^verbatim>\<open>fallback\<close> is falsy.
\<close>

definition get_fallback :: "env \<Rightarrow> 'r router \<Rightarrow> url option" where
  "get_fallback E s =
     URL_in_base E s
       (case cfg_fallback (this_config s) of
          None \<Rightarrow> ''/''
        | Some f \<Rightarrow> if f = [] then ''/'' else f)"

subsection \<open>\<^verbatim>\<open>render\<close>\<close>

text \<open>
  \<^verbatim>\<open>return this.route?.render({params, query, url, title})\<close>. The optional chain stops at
  a \<^verbatim>\<open>this.route\<close> that is \<^verbatim>\<open>null\<close> or \<^verbatim>\<open>undefined\<close> and yields \<^verbatim>\<open>undefined\<close>
  (\<open>Inr None\<close>); with a route, \<^verbatim>\<open>render\<close> is called, and calling an absent \<^verbatim>\<open>render\<close>
  throws a \<^verbatim>\<open>TypeError\<close>.
\<close>

definition Router_render :: "'r router \<Rightarrow> error + 'r option" where
  "Router_render s =
     (let c = \<lparr>url = url (this_context s), title = title (this_context s),
                params = params (this_context s), query = query (this_context s)\<rparr>
      in case this_route s of
           None \<Rightarrow> Inr None
         | Some r \<Rightarrow>
             (case render r of
                None \<Rightarrow> Inl TypeError
              | Some f \<Rightarrow> Inr (Some (f c))))"

subsection \<open>\<^verbatim>\<open>_matchRoute\<close>\<close>

text \<open>\<^verbatim>\<open>Object.fromEntries\<close>: a later entry overwrites an earlier one with its key.\<close>

definition Object_fromEntries :: "(string \<times> string) list \<Rightarrow> object" where
  "Object_fromEntries es = map_of (rev es)"

text \<open>The context \<^verbatim>\<open>_matchRoute\<close> builds for a route whose pattern matched with \<open>groups\<close>.\<close>

definition match_context :: "env \<Rightarrow> 'r Route \<Rightarrow> url \<Rightarrow> object \<Rightarrow> Context" where
  "match_context E r u groups =
     (let q = Object_fromEntries (URLSearchParams E (search u));
          p = groups
      in \<lparr>url = u,
          title = (case route_title r of
                     Computed f \<Rightarrow> f p q u
                   | Literal t \<Rightarrow> t),
          params = p,
          query = q\<rparr>)"

text \<open>
  The loop \<^verbatim>\<open>for (const route of this.routes)\<close>: at the first route whose pattern
  matches, assign \<^verbatim>\<open>this.context\<close> and return the route; \<^verbatim>\<open>null\<close> after the loop.
\<close>

fun matchRoute_loop :: "env \<Rightarrow> 'r Route list \<Rightarrow> url \<Rightarrow> 'r router \<Rightarrow> 'r Route option \<times> 'r router" where
  "matchRoute_loop E [] u s = (None, s)"
| "matchRoute_loop E (r # rs) u s =
     (case urlPattern r u of
        Some groups \<Rightarrow> (Some r, s\<lparr>this_context := match_context E r u groups\<rparr>)
      | None \<Rightarrow> matchRoute_loop E rs u s)"

definition matchRoute :: "env \<Rightarrow> 'r router \<Rightarrow> url \<Rightarrow> 'r Route option \<times> 'r router" where
  "matchRoute E s u = matchRoute_loop E (this_routes s) u s"

subsection \<open>\<^verbatim>\<open>_notifyUrlChanged\<close> and \<^verbatim>\<open>_onPopState\<close>\<close>

text \<open>\<^verbatim>\<open>this.dispatchEvent(new RouteEvent(this.context))\<close>\<close>

definition notifyUrlChanged :: "'r router \<Rightarrow> 'r router" where
  "notifyUrlChanged s = s\<lparr>events := events s @ [this_context s]\<rparr>"

text \<open>
  \<^verbatim>\<open>this.route = this._matchRoute(new URL(window.location.href)); this._notifyUrlChanged()\<close>
\<close>

definition onPopState :: "env \<Rightarrow> 'r router \<Rightarrow> 'r router" where
  "onPopState E s =
     (case matchRoute E s (location s) of
        (r, s1) \<Rightarrow> notifyUrlChanged (s1\<lparr>this_route := r\<rparr>))"

subsection \<open>\<^verbatim>\<open>navigate\<close>\<close>

text \<open>
  The statement \<^verbatim>\<open>this.route = this._matchRoute(url) || this._matchRoute(this.fallback)\<close>,
  which \<^verbatim>\<open>navigate\<close> runs first and again at every redirect. The getter
  \<^verbatim>\<open>this.fallback\<close> is evaluated only when the first match is \<^verbatim>\<open>null\<close>; when it throws,
  nothing is assigned.
\<close>

definition assign_route :: "env \<Rightarrow> 'r router \<Rightarrow> url \<Rightarrow> (error + unit) \<times> 'r router" where
  "assign_route E s u =
     (case matchRoute E s u of
        (Some r, s1) \<Rightarrow> (Inr (), s1\<lparr>this_route := Some r\<rparr>)
      | (None, s1) \<Rightarrow>
          (case get_fallback E s1 of
             None \<Rightarrow> (Inl TypeError, s1)
           | Some f \<Rightarrow>
               (case matchRoute E s1 f of
                  (r, s2) \<Rightarrow> (Inr (), s2\<lparr>this_route := r\<rparr>))))"

text \<open>
  \<^verbatim>\<open>const plugins = [...(this.config?.plugins ?? []), ...(this.route?.plugins ?? [])]\<close>
\<close>

definition effective_plugins :: "'r router \<Rightarrow> Plugin list" where
  "effective_plugins s =
     (case cfg_plugins (this_config s) of None \<Rightarrow> [] | Some ps \<Rightarrow> ps) @
     (case this_route s of
        None \<Rightarrow> []
      | Some r \<Rightarrow> (case route_plugins r of None \<Rightarrow> [] | Some ps \<Rightarrow> ps))"

text \<open>
  The first loop over \<^verbatim>\<open>plugins\<close>, with the local variable \<^verbatim>\<open>url\<close>:
  \<^verbatim>\<open>
  const result = await plugin?.shouldNavigate?.(this.context);
  if (result) {
    const condition = await result.condition();
    if (!condition) {
      url = new URL(result.redirect, this.baseUrl);
      this.route = this._matchRoute(url) || this._matchRoute(this.fallback);
    }
  }\<close>
\<close>

fun shouldNavigate_loop :: "env \<Rightarrow> Plugin list \<Rightarrow> url \<Rightarrow> 'r router \<Rightarrow> (error + url) \<times> 'r router" where
  "shouldNavigate_loop E [] u s = (Inr u, s)"
| "shouldNavigate_loop E (p # ps) u s =
     (case shouldNavigate p of
        None \<Rightarrow> shouldNavigate_loop E ps u s
      | Some h \<Rightarrow>
          (case h (this_context s) of
             Inl x \<Rightarrow> (Inl (HookError ShouldNavigate x), s)
           | Inr None \<Rightarrow> shouldNavigate_loop E ps u s
           | Inr (Some g) \<Rightarrow>
               (case condition g of
                  Inl x \<Rightarrow> (Inl (HookError Condition x), s)
                | Inr True \<Rightarrow> shouldNavigate_loop E ps u s
                | Inr False \<Rightarrow>
                    (case URL_in_base E s (redirect g) of
                       None \<Rightarrow> (Inl TypeError, s)
                     | Some u' \<Rightarrow>
                         (case assign_route E s u' of
                            (Inl e, s1) \<Rightarrow> (Inl e, s1)
                          | (Inr _, s1) \<Rightarrow> shouldNavigate_loop E ps u' s1)))))"

text \<open>
  \<^verbatim>\<open>for (const plugin of plugins) { await plugin?.beforeNavigation?.(this.context); }\<close>
  No hook writes \<^verbatim>\<open>this.context\<close>, so every iteration passes the same context \<open>c\<close>.
\<close>

fun beforeNavigation_loop :: "Plugin list \<Rightarrow> Context \<Rightarrow> error + unit" where
  "beforeNavigation_loop [] c = Inr ()"
| "beforeNavigation_loop (p # ps) c =
     (case beforeNavigation p of
        None \<Rightarrow> beforeNavigation_loop ps c
      | Some h \<Rightarrow>
          (case h c of
             Inl x \<Rightarrow> Inl (HookError BeforeNavigation x)
           | Inr _ \<Rightarrow> beforeNavigation_loop ps c))"

text \<open>
  \<^verbatim>\<open>for (const plugin of plugins) { await plugin?.afterNavigation?.(this.context); }\<close>
\<close>

fun afterNavigation_loop :: "Plugin list \<Rightarrow> Context \<Rightarrow> error + unit" where
  "afterNavigation_loop [] c = Inr ()"
| "afterNavigation_loop (p # ps) c =
     (case afterNavigation p of
        None \<Rightarrow> afterNavigation_loop ps c
      | Some h \<Rightarrow>
          (case h c of
             Inl x \<Rightarrow> Inl (HookError AfterNavigation x)
           | Inr _ \<Rightarrow> afterNavigation_loop ps c))"

text \<open>
  \<^verbatim>\<open>
  window.history.pushState(null, '', `${url.pathname}${url.search}`);
  document.title = this.context.title;
  this._notifyUrlChanged();\<close>
\<close>

definition commit :: "env \<Rightarrow> 'r router \<Rightarrow> url \<Rightarrow> 'r router" where
  "commit E s u =
     notifyUrlChanged
       (s\<lparr>history := history s @ [pathname u @ search u],
          location := pushState_url E (location s) (pathname u @ search u),
          document_title := title (this_context s)\<rparr>)"

text \<open>\<^verbatim>\<open>if (typeof url === 'string') { url = new URL(url, this.baseUrl); }\<close>\<close>

definition target_url :: "env \<Rightarrow> 'r router \<Rightarrow> target \<Rightarrow> url option" where
  "target_url E s t = (case t of Str x \<Rightarrow> URL_in_base E s x | Url u \<Rightarrow> Some u)"

text \<open>
  \<^verbatim>\<open>async navigate(url)\<close>: the result is \<open>Inr ()\<close> when the promise is fulfilled and
  \<open>Inl e\<close> when it is rejected with \<open>e\<close>.
\<close>

definition navigate :: "env \<Rightarrow> 'r router \<Rightarrow> target \<Rightarrow> (error + unit) \<times> 'r router" where
  "navigate E s t =
     (case target_url E s t of
        None \<Rightarrow> (Inl TypeError, s)
      | Some u \<Rightarrow>
          (case assign_route E s u of
             (Inl e, s1) \<Rightarrow> (Inl e, s1)
           | (Inr _, s1) \<Rightarrow>
               (let plugins = effective_plugins s1 in
                case shouldNavigate_loop E plugins u s1 of
                  (Inl e, s2) \<Rightarrow> (Inl e, s2)
                | (Inr u', s2) \<Rightarrow>
                    (case this_route s2 of
                       None \<Rightarrow> (Inl (Unroutable u'), s2)
                     | Some _ \<Rightarrow>
                         (case beforeNavigation_loop plugins (this_context s2) of
                            Inl e \<Rightarrow> (Inl e, s2)
                          | Inr _ \<Rightarrow>
                              (let s3 = commit E s2 u' in
                               case afterNavigation_loop plugins (this_context s3) of
                                 Inl e \<Rightarrow> (Inl e, s3)
                               | Inr _ \<Rightarrow> (Inr (), s3)))))))"

subsection \<open>\<^verbatim>\<open>_onAnchorClick\<close>\<close>

text \<open>
  An element of the event's composed path: its \<^verbatim>\<open>tagName\<close> (empty for a node that has
  none), its \<^verbatim>\<open>href\<close> property (empty when it has none) and its attributes.
\<close>

record element =
  tagName :: string
  el_href :: string
  attributes :: "string \<rightharpoonup> string"

definition hasAttribute :: "element \<Rightarrow> string \<Rightarrow> bool" where
  "hasAttribute a n = (attributes a n \<noteq> None)"

definition getAttribute :: "element \<Rightarrow> string \<Rightarrow> string option" where
  "getAttribute a n = attributes a n"

text \<open>The click event, as the handler reads it.\<close>

record click_event =
  defaultPrevented :: bool
  button :: int
  metaKey :: bool
  ctrlKey :: bool
  shiftKey :: bool
  composedPath :: "element list"

text \<open>\<^verbatim>\<open>String.prototype.includes\<close>\<close>

fun str_includes :: "string \<Rightarrow> string \<Rightarrow> bool" where
  "str_includes [] x = (x = [])"
| "str_includes (c # cs) x = (take (length x) (c # cs) = x \<or> str_includes cs x)"

text \<open>
  What one run of the handler did: whether it called \<^verbatim>\<open>e.preventDefault()\<close>, the URL it
  called \<^verbatim>\<open>this.navigate\<close> with (if it did), the exception it threw (if it did), and the
  router afterwards. The promise of \<^verbatim>\<open>navigate\<close> is not awaited, so its rejection is not
  thrown by the handler.
\<close>

record 'r click_result =
  prevented :: bool
  navigated :: "url option"
  thrown :: "error option"
  router_after :: "'r router"

definition left_to_browser :: "'r router \<Rightarrow> 'r click_result" where
  "left_to_browser s = \<lparr>prevented = False, navigated = None, thrown = None, router_after = s\<rparr>"

definition onAnchorClick :: "env \<Rightarrow> 'r router \<Rightarrow> click_event \<Rightarrow> 'r click_result" where
  "onAnchorClick E s e =
     (if defaultPrevented e \<or> button e \<noteq> 0 \<or> metaKey e \<or> ctrlKey e \<or> shiftKey e
      then left_to_browser s
      else
        (case find (\<lambda>el. tagName el = ''A'') (composedPath e) of
           None \<Rightarrow> left_to_browser s
         | Some a \<Rightarrow>
             if el_href a = [] then left_to_browser s
             else
               (case URL_new E (el_href a) None of
                  None \<Rightarrow> (left_to_browser s)\<lparr>thrown := Some TypeError\<rparr>
                | Some u \<Rightarrow>
                    if href (get_url s) = href u then left_to_browser s
                    else if hasAttribute a ''download'' \<or> str_includes (el_href a) ''mailto:''
                    then left_to_browser s
                    else
                      (let tgt = getAttribute a ''target'' in
                       if tgt \<noteq> None \<and> tgt \<noteq> Some [] \<and> tgt \<noteq> Some ''_self''
                       then left_to_browser s
                       else \<lparr>prevented = True, navigated = Some u, thrown = None,
                             router_after = snd (navigate E s (Url u))\<rparr>))))"

subsection \<open>Predicates used to state the properties\<close>

text \<open>No compiled route's matcher accepts the URL.\<close>

definition unmatched :: "'r router \<Rightarrow> url \<Rightarrow> bool" where
  "unmatched s u = list_all (\<lambda>r. urlPattern r u = None) (this_routes s)"

text \<open>
  The plugin's guard lets a navigation with context \<open>c\<close> pass: it has no
  \<^verbatim>\<open>shouldNavigate\<close>, or the hook returns nothing, or a descriptor whose condition is true.
\<close>

definition guard_passes :: "Context \<Rightarrow> Plugin \<Rightarrow> bool" where
  "guard_passes c p =
     (case shouldNavigate p of
        None \<Rightarrow> True
      | Some h \<Rightarrow>
          (case h c of
             Inl x \<Rightarrow> False
           | Inr None \<Rightarrow> True
           | Inr (Some g) \<Rightarrow> condition g = Inr True))"

text \<open>
  The plugin's guard, in the router \<open>s\<close>, passes or redirects to a URL that no route
  accepts.
\<close>

definition guard_finds_no_route :: "env \<Rightarrow> 'r router \<Rightarrow> Plugin \<Rightarrow> bool" where
  "guard_finds_no_route E s p =
     (case shouldNavigate p of
        None \<Rightarrow> True
      | Some h \<Rightarrow>
          (case h (this_context s) of
             Inl x \<Rightarrow> False
           | Inr None \<Rightarrow> True
           | Inr (Some g) \<Rightarrow>
               (case condition g of
                  Inl x \<Rightarrow> False
                | Inr True \<Rightarrow> True
                | Inr False \<Rightarrow>
                    (case URL_in_base E s (redirect g) of
                       None \<Rightarrow> False
                     | Some u \<Rightarrow> unmatched s u))))"

text \<open>Two routes that differ at most in their \<^verbatim>\<open>plugins\<close>.\<close>

definition same_but_plugins :: "'r Route \<Rightarrow> 'r Route \<Rightarrow> bool" where
  "same_but_plugins r r' =
     (path r = path r' \<and> route_title r = route_title r' \<and> render r = render r' \<and>
      urlPattern r = urlPattern r')"

text \<open>Two routers that differ at most in the \<^verbatim>\<open>plugins\<close> of their routes.\<close>

definition same_but_route_plugins :: "'r router \<Rightarrow> 'r router \<Rightarrow> bool" where
  "same_but_route_plugins s s' =
     (this_config s = this_config s' \<and>
      list_all2 same_but_plugins (this_routes s) (this_routes s') \<and>
      this_context s = this_context s' \<and>
      rel_option same_but_plugins (this_route s) (this_route s') \<and>
      location s = location s' \<and> history s = history s' \<and>
      document_title s = document_title s' \<and> events s = events s')"

subsection \<open>Auxiliary functions\<close>

text \<open>
  The route \<^verbatim>\<open>_matchRoute\<close> returns and the context it assigns, as a function of the
  route table and the URL alone.
\<close>

fun first_match :: "env \<Rightarrow> 'r Route list \<Rightarrow> url \<Rightarrow> ('r Route \<times> Context) option" where
  "first_match E [] u = None"
| "first_match E (r # rs) u =
     (case urlPattern r u of
        Some groups \<Rightarrow> Some (r, match_context E r u groups)
      | None \<Rightarrow> first_match E rs u)"

text \<open>One iteration of the first loop of \<^verbatim>\<open>navigate\<close>.\<close>

definition guard_step :: "env \<Rightarrow> Plugin \<Rightarrow> url \<Rightarrow> 'r router \<Rightarrow> (error + url) \<times> 'r router" where
  "guard_step E p u s = shouldNavigate_loop E [p] u s"

text \<open>
  Two routers with the same configuration, route table, current context, current route
  and base URL: they differ at most in the browser's history, title, events and in a
  location that gives the same base URL.
\<close>

definition same_core :: "env \<Rightarrow> 'r router \<Rightarrow> 'r router \<Rightarrow> bool" where
  "same_core E x y =
     (this_config x = this_config y \<and> this_routes x = this_routes y \<and>
      this_context x = this_context y \<and> this_route x = this_route y \<and>
      get_baseUrl E x = get_baseUrl E y)"

text \<open>
  What \<^verbatim>\<open>_matchRoute\<close> and the first loop of \<^verbatim>\<open>navigate\<close> never write: the
  configuration, the route table and the browser's state.
\<close>

definition unchanged_by_guards :: "'r router \<Rightarrow> 'r router \<Rightarrow> bool" where
  "unchanged_by_guards s s' =
     (this_config s' = this_config s \<and> this_routes s' = this_routes s \<and>
      location s' = location s \<and> history s' = history s \<and>
      document_title s' = document_title s \<and> events s' = events s)"

text \<open>
  The value of the variable \<^verbatim>\<open>url\<close> after the first loop of \<^verbatim>\<open>navigate\<close> over the
  plugins \<open>ps\<close>, when the router stays \<open>s\<close> all along (no redirect finds a route): every
  guard whose condition is false replaces it by its redirect, resolved against the base
  URL.
\<close>

fun redirected_url :: "env \<Rightarrow> 'r router \<Rightarrow> Plugin list \<Rightarrow> url \<Rightarrow> url" where
  "redirected_url E s [] u = u"
| "redirected_url E s (p # ps) u =
     redirected_url E s ps
       (case shouldNavigate p of
          None \<Rightarrow> u
        | Some h \<Rightarrow>
            (case h (this_context s) of
               Inl x \<Rightarrow> u
             | Inr None \<Rightarrow> u
             | Inr (Some g) \<Rightarrow>
                 (case condition g of
                    Inl x \<Rightarrow> u
                  | Inr True \<Rightarrow> u
                  | Inr False \<Rightarrow>
                      (case URL_in_base E s (redirect g) of
                         None \<Rightarrow> u
                       | Some v \<Rightarrow> v))))"

text \<open>
  The statements of \<^verbatim>\<open>navigate\<close> after the first loop (lines 183 to 197), for the plugin
  list and the value of \<^verbatim>\<open>url\<close> the loop ended with: the check of \<^verbatim>\<open>this.route\<close>, the
  \<^verbatim>\<open>beforeNavigation\<close> loop, the commit and the \<^verbatim>\<open>afterNavigation\<close> loop.
\<close>

definition finish_navigation ::
  "env \<Rightarrow> Plugin list \<Rightarrow> url \<Rightarrow> 'r router \<Rightarrow> (error + unit) \<times> 'r router" where
  "finish_navigation E plugins u s =
     (case this_route s of
        None \<Rightarrow> (Inl (Unroutable u), s)
      | Some _ \<Rightarrow>
          (case beforeNavigation_loop plugins (this_context s) of
             Inl e \<Rightarrow> (Inl e, s)
           | Inr _ \<Rightarrow>
               (let s3 = commit E s u in
                case afterNavigation_loop plugins (this_context s3) of
                  Inl e \<Rightarrow> (Inl e, s3)
                | Inr _ \<Rightarrow> (Inr (), s3))))"

subsection \<open>An example application\<close>

text \<open>
  A browser whose URLs are \<^verbatim>\<open>http://app.test\<close> followed by an absolute path, and routes
  whose patterns match one path each.
\<close>

definition app_url :: "string \<Rightarrow> url" where
  "app_url p = \<lparr>href = ''http://app.test'' @ p, pathname = p, search = []\<rparr>"

definition app_env :: env where
  "app_env =
     \<lparr>URL_new = (\<lambda>x base.
          if x = ''./'' then Some (app_url ''/'')
          else if take 16 x = ''http://app.test/'' then Some (app_url (drop 15 x))
          else if take 1 x = ''/'' then Some (app_url x)
          else None),
      URLSearchParams = (\<lambda>x. []),
      document_baseURI = (\<lambda>l. href l),
      pushState_url = (\<lambda>l x. app_url x)\<rparr>"

definition exact :: "string \<Rightarrow> url \<Rightarrow> object option" where
  "exact p u = (if pathname u = p then Some Map.empty else None)"

definition page :: "string \<Rightarrow> Plugin list option \<Rightarrow> string Route" where
  "page p ps =
     \<lparr>path = p, route_title = Literal p, render = Some (\<lambda>c. title c),
      route_plugins = ps, urlPattern = exact p\<rparr>"

definition no_hooks :: Plugin where
  "no_hooks = \<lparr>shouldNavigate = None, beforeNavigation = None, afterNavigation = None\<rparr>"

definition redirects_to :: "string \<Rightarrow> Plugin" where
  "redirects_to x =
     no_hooks\<lparr>shouldNavigate :=
       Some (\<lambda>c. Inr (Some \<lparr>condition = Inr False, redirect = x\<rparr>))\<rparr>"

definition app_router :: "config \<Rightarrow> string Route list \<Rightarrow> string router" where
  "app_router cfg rs =
     \<lparr>this_config = cfg, this_routes = rs,
      this_context = \<lparr>url = app_url ''/start'', title = [], params = Map.empty, query = Map.empty\<rparr>,
      this_route = None, location = app_url ''/start'', history = [], document_title = [],
      events = []\<rparr>"

definition plain_config :: config where
  "plain_config = \<lparr>cfg_fallback = None, cfg_plugins = None\<rparr>"

text \<open>A route \<^verbatim>\<open>/:x\<close>, whose pattern matches every URL.\<close>

definition catch_all :: "string Route" where
  "catch_all =
     \<lparr>path = ''/:x'', route_title = Literal ''any'', render = Some (\<lambda>c. title c),
      route_plugins = None, urlPattern = (\<lambda>u. Some [''x'' \<mapsto> pathname u])\<rparr>"

definition throws_before :: Plugin where
  "throws_before = no_hooks\<lparr>beforeNavigation := Some (\<lambda>c. Inl ''denied'')\<rparr>"

definition throws_after :: Plugin where
  "throws_after = no_hooks\<lparr>afterNavigation := Some (\<lambda>c. Inl ''late'')\<rparr>"

text \<open>One page, and the router after a navigation to it.\<close>

definition one_page :: "string router" where
  "one_page = app_router plain_config [page ''/a'' None]"

definition at_a :: "string router" where
  "at_a = snd (navigate app_env one_page (Str ''/a''))"

text \<open>The same page, configured as the fallback too.\<close>

definition with_fallback :: "string router" where
  "with_fallback = app_router \<lparr>cfg_fallback = Some ''/a'', cfg_plugins = None\<rparr> [page ''/a'' None]"

text \<open>Two routes that both match \<^verbatim>\<open>/a\<close>.\<close>

definition overlapping :: "string router" where
  "overlapping = app_router plain_config [page ''/a'' None, catch_all]"

text \<open>A global guard that sends every navigation to a path without a route.\<close>

definition closed_site :: "string router" where
  "closed_site =
     app_router \<lparr>cfg_fallback = Some ''/404'', cfg_plugins = Some [redirects_to ''/nowhere'']\<rparr>
       [page ''/a'' None]"

text \<open>A page whose two guards redirect to \<^verbatim>\<open>/b\<close> and then to \<^verbatim>\<open>/c\<close>.\<close>

definition two_guards :: "string router" where
  "two_guards =
     app_router plain_config
       [page ''/a'' (Some [redirects_to ''/b'', redirects_to ''/c'']),
        page ''/b'' None, page ''/c'' None]"

text \<open>
  A page whose guard redirects to \<^verbatim>\<open>/b\<close>; in the second router the route \<^verbatim>\<open>/b\<close>
  has a guard of its own, which redirects to \<^verbatim>\<open>/c\<close>.
\<close>

definition guarded_a :: "string router" where
  "guarded_a =
     app_router plain_config
       [page ''/a'' (Some [redirects_to ''/b'']), page ''/b'' None, page ''/c'' None]"

definition guarded_a_b :: "string router" where
  "guarded_a_b =
     app_router plain_config
       [page ''/a'' (Some [redirects_to ''/b'']), page ''/b'' (Some [redirects_to ''/c'']),
        page ''/c'' None]"

text \<open>A members' page behind a login.\<close>

definition members :: "string router" where
  "members =
     app_router plain_config [page ''/members'' (Some [redirects_to ''/login'']), page ''/login'' None]"

text \<open>The same, with a second guard that redirects to \<^verbatim>\<open>/terms\<close>.\<close>

definition members_terms :: "string router" where
  "members_terms =
     app_router plain_config
       [page ''/members'' (Some [redirects_to ''/login'', redirects_to ''/terms'']),
        page ''/login'' None, page ''/terms'' None]"

text \<open>Pages whose plugins throw before and after the commit.\<close>

definition denied_page :: "string router" where
  "denied_page = app_router plain_config [page ''/a'' (Some [throws_before])]"

definition late_page :: "string router" where
  "late_page = app_router plain_config [page ''/a'' (Some [throws_after])]"

text \<open>A route without \<^verbatim>\<open>render\<close>, and the router after a navigation to it.\<close>

definition bare_page :: "string router" where
  "bare_page = app_router plain_config [(page ''/a'' None)\<lparr>render := None\<rparr>]"

definition at_bare :: "string router" where
  "at_bare = snd (navigate app_env bare_page (Str ''/a''))"

text \<open>A primary-button click on \<^verbatim>\<open><a href="/a" target="_blank">\<close> inside a \<^verbatim>\<open><p>\<close>.\<close>

definition blank_anchor :: element where
  "blank_anchor =
     \<lparr>tagName = ''A'', el_href = ''http://app.test/a'', attributes = [''target'' \<mapsto> ''_blank'']\<rparr>"

definition blank_click :: click_event where
  "blank_click =
     \<lparr>defaultPrevented = False, button = 0, metaKey = False, ctrlKey = False, shiftKey = False,
      composedPath = [blank_anchor, \<lparr>tagName = ''P'', el_href = [], attributes = Map.empty\<rparr>]\<rparr>"

text \<open>A global guard that sends every navigation to \<^verbatim>\<open>/login\<close>, the only route.\<close>

definition login_wall :: "string router" where
  "login_wall =
     app_router \<lparr>cfg_fallback = Some ''/404'', cfg_plugins = Some [redirects_to ''/login'']\<rparr>
       [page ''/login'' None]"

text \<open>Pages whose guards throw: in \<^verbatim>\<open>shouldNavigate\<close>, and in the \<^verbatim>\<open>condition\<close> it returns.\<close>

definition throws_guard :: Plugin where
  "throws_guard = no_hooks\<lparr>shouldNavigate := Some (\<lambda>c. Inl ''forbidden'')\<rparr>"

definition throws_condition :: Plugin where
  "throws_condition =
     no_hooks\<lparr>shouldNavigate :=
       Some (\<lambda>c. Inr (Some \<lparr>condition = Inl ''offline'', redirect = ''/login''\<rparr>))\<rparr>"

definition forbidden_page :: "string router" where
  "forbidden_page = app_router plain_config [page ''/a'' (Some [throws_guard])]"

definition offline_page :: "string router" where
  "offline_page = app_router plain_config [page ''/a'' (Some [throws_condition])]"

text \<open>
  A members' page whose guard redirects to \<^verbatim>\<open>/login\<close> when the context it is given is
  that of \<^verbatim>\<open>/members\<close>, and lets every other context pass.
\<close>

definition checks_title :: Plugin where
  "checks_title =
     no_hooks\<lparr>shouldNavigate :=
       Some (\<lambda>c. if title c = ''/members''
                 then Inr (Some \<lparr>condition = Inr False, redirect = ''/login''\<rparr>)
                 else Inr None)\<rparr>"

definition checked_members :: "string router" where
  "checked_members =
     app_router plain_config [page ''/members'' (Some [checks_title]), page ''/login'' None]"

section \<open>Properties\<close>

subsection \<open>\<^verbatim>\<open>_matchRoute\<close> and route assignment\<close>

lemma matchRoute_loop_unmatched:
  "list_all (\<lambda>r. urlPattern r u = None) rs \<Longrightarrow> matchRoute_loop E rs u s = (None, s)"
  by (induction rs) auto

lemma matchRoute_unmatched: "unmatched s u \<Longrightarrow> matchRoute E s u = (None, s)"
  by (simp add: matchRoute_def unmatched_def matchRoute_loop_unmatched)

lemma matchRoute_loop_first:
  "i < length rs \<Longrightarrow> urlPattern (rs ! i) u \<noteq> None \<Longrightarrow>
   \<exists>k\<le>i. fst (matchRoute_loop E rs u s) = Some (rs ! k) \<and> urlPattern (rs ! k) u \<noteq> None \<and>
          (\<forall>m<k. urlPattern (rs ! m) u = None)"
proof (induction rs arbitrary: i)
  case Nil
  then show ?case by simp
next
  case (Cons r rs)
  show ?case
  proof (cases "urlPattern r u")
    case (Some g)
    then have "fst (matchRoute_loop E (r # rs) u s) = Some ((r # rs) ! 0) \<and>
               urlPattern ((r # rs) ! 0) u \<noteq> None \<and> (\<forall>m<0. urlPattern ((r # rs) ! m) u = None)"
      by simp
    then show ?thesis by blast
  next
    case None
    with Cons.prems obtain j where j: "i = Suc j" by (cases i) auto
    with Cons.prems have "j < length rs" "urlPattern (rs ! j) u \<noteq> None" by auto
    from Cons.IH[OF this] obtain k where k: "k \<le> j"
      "fst (matchRoute_loop E rs u s) = Some (rs ! k)" "urlPattern (rs ! k) u \<noteq> None"
      "\<forall>m<k. urlPattern (rs ! m) u = None" by blast
    have "\<forall>m<Suc k. urlPattern ((r # rs) ! m) u = None"
      using None k(4) by (auto simp: less_Suc_eq_0_disj)
    with k None j have "Suc k \<le> i \<and> fst (matchRoute_loop E (r # rs) u s) = Some ((r # rs) ! Suc k) \<and>
       urlPattern ((r # rs) ! Suc k) u \<noteq> None \<and> (\<forall>m<Suc k. urlPattern ((r # rs) ! m) u = None)"
      by simp
    then show ?thesis by blast
  qed
qed

lemma matchRoute_loop_frame:
  "case fst (matchRoute_loop E rs u s) of
     None \<Rightarrow> list_all (\<lambda>r. urlPattern r u = None) rs \<and> snd (matchRoute_loop E rs u s) = s
   | Some r \<Rightarrow> r \<in> set rs \<and> (\<exists>g. urlPattern r u = Some g \<and>
        snd (matchRoute_loop E rs u s) = s\<lparr>this_context := match_context E r u g\<rparr>)"
  by (induction rs) (auto split: option.splits)

lemma matchRoute_loop_route_indep:
  "fst (matchRoute_loop E rs u s') = fst (matchRoute_loop E rs u s)"
  by (induction rs) (auto split: option.splits)

lemma matchRoute_first_match:
  "matchRoute E s u =
     (case first_match E (this_routes s) u of
        None \<Rightarrow> (None, s)
      | Some (r, c) \<Rightarrow> (Some r, s\<lparr>this_context := c\<rparr>))"
proof -
  have "matchRoute_loop E rs u s =
     (case first_match E rs u of
        None \<Rightarrow> (None, s)
      | Some (r, c) \<Rightarrow> (Some r, s\<lparr>this_context := c\<rparr>))" for rs
    by (induction rs) (auto split: option.splits)
  then show ?thesis by (simp add: matchRoute_def)
qed

lemma get_baseUrl_updates [simp]:
  "get_baseUrl E (s\<lparr>this_context := c\<rparr>) = get_baseUrl E s"
  "get_baseUrl E (s\<lparr>this_route := r\<rparr>) = get_baseUrl E s"
  by (simp_all add: get_baseUrl_def)

lemma URL_in_base_updates [simp]:
  "URL_in_base E (s\<lparr>this_context := c\<rparr>) x = URL_in_base E s x"
  "URL_in_base E (s\<lparr>this_route := r\<rparr>) x = URL_in_base E s x"
  by (simp_all add: URL_in_base_def)

lemma get_fallback_updates [simp]:
  "get_fallback E (s\<lparr>this_context := c\<rparr>) = get_fallback E s"
  "get_fallback E (s\<lparr>this_route := r\<rparr>) = get_fallback E s"
  by (simp_all add: get_fallback_def)

lemma assign_route_first_match:
  "assign_route E s u =
     (case first_match E (this_routes s) u of
        Some (r, c) \<Rightarrow> (Inr (), s\<lparr>this_context := c, this_route := Some r\<rparr>)
      | None \<Rightarrow>
          (case get_fallback E s of
             None \<Rightarrow> (Inl TypeError, s)
           | Some f \<Rightarrow>
               (case first_match E (this_routes s) f of
                  Some (r, c) \<Rightarrow> (Inr (), s\<lparr>this_context := c, this_route := Some r\<rparr>)
                | None \<Rightarrow> (Inr (), s\<lparr>this_route := None\<rparr>))))"
  by (simp add: assign_route_def matchRoute_first_match split: option.splits)

lemma first_match_unmatched:
  "list_all (\<lambda>r. urlPattern r u = None) rs \<Longrightarrow> first_match E rs u = None"
  by (induction rs) auto

lemma assign_route_unmatched:
  assumes "unmatched s u" and "get_fallback E s = Some f" and "unmatched s f"
  shows "assign_route E s u = (Inr (), s\<lparr>this_route := None\<rparr>)"
  using assms by (simp add: assign_route_first_match unmatched_def first_match_unmatched)

lemma assign_route_frame:
  "assign_route E s u = (res, s') \<Longrightarrow> unchanged_by_guards s s'"
  by (auto simp: assign_route_first_match unchanged_by_guards_def split: option.splits)

lemma assign_route_error:
  "assign_route E s u = (Inl e, s') \<Longrightarrow> e = TypeError \<and> s' = s"
  by (auto simp: assign_route_first_match split: option.splits)

subsection \<open>The loops of \<^verbatim>\<open>navigate\<close>\<close>

lemma guard_step_eq:
  "guard_step E p u s =
     (case shouldNavigate p of
        None \<Rightarrow> (Inr u, s)
      | Some h \<Rightarrow>
          (case h (this_context s) of
             Inl x \<Rightarrow> (Inl (HookError ShouldNavigate x), s)
           | Inr None \<Rightarrow> (Inr u, s)
           | Inr (Some g) \<Rightarrow>
               (case condition g of
                  Inl x \<Rightarrow> (Inl (HookError Condition x), s)
                | Inr True \<Rightarrow> (Inr u, s)
                | Inr False \<Rightarrow>
                    (case URL_in_base E s (redirect g) of
                       None \<Rightarrow> (Inl TypeError, s)
                     | Some u' \<Rightarrow>
                         (case assign_route E s u' of
                            (Inl e, s1) \<Rightarrow> (Inl e, s1)
                          | (Inr _, s1) \<Rightarrow> (Inr u', s1))))))"
  by (simp add: guard_step_def split: option.splits sum.splits bool.splits prod.splits)

lemma shouldNavigate_loop_Cons:
  "shouldNavigate_loop E (p # ps) u s =
     (case guard_step E p u s of
        (Inl e, s1) \<Rightarrow> (Inl e, s1)
      | (Inr u1, s1) \<Rightarrow> shouldNavigate_loop E ps u1 s1)"
  by (simp add: guard_step_def split: option.splits sum.splits bool.splits prod.splits)

declare shouldNavigate_loop.simps(2) [simp del]

lemma shouldNavigate_loop_append:
  "shouldNavigate_loop E (ps @ qs) u s =
     (case shouldNavigate_loop E ps u s of
        (Inl e, s1) \<Rightarrow> (Inl e, s1)
      | (Inr u1, s1) \<Rightarrow> shouldNavigate_loop E qs u1 s1)"
proof (induction ps arbitrary: u s)
  case Nil
  then show ?case by simp
next
  case (Cons p ps)
  show ?case
    unfolding append_Cons shouldNavigate_loop_Cons
    by (simp add: Cons.IH split: prod.splits sum.splits)
qed

lemma guard_step_frame:
  "guard_step E p u s = (res, s') \<Longrightarrow> unchanged_by_guards s s'"
  by (auto simp: guard_step_eq unchanged_by_guards_def split: option.splits sum.splits bool.splits prod.splits
      dest!: assign_route_frame)

lemma unchanged_by_guards_trans:
  "unchanged_by_guards s s1 \<Longrightarrow> unchanged_by_guards s1 s2 \<Longrightarrow> unchanged_by_guards s s2"
  by (simp add: unchanged_by_guards_def)

lemma shouldNavigate_loop_frame:
  "shouldNavigate_loop E ps u s = (res, s') \<Longrightarrow> unchanged_by_guards s s'"
proof (induction ps arbitrary: u s)
  case Nil
  then show ?case by (simp add: unchanged_by_guards_def)
next
  case (Cons p ps)
  obtain r1 s1 where st: "guard_step E p u s = (r1, s1)" by (cases "guard_step E p u s")
  then have f1: "unchanged_by_guards s s1" by (rule guard_step_frame)
  show ?case
  proof (cases r1)
    case (Inl e)
    with Cons.prems st have "s' = s1" by (simp add: shouldNavigate_loop_Cons)
    with f1 show ?thesis by simp
  next
    case (Inr u1)
    with Cons.prems st have "shouldNavigate_loop E ps u1 s1 = (res, s')"
      by (simp add: shouldNavigate_loop_Cons)
    from Cons.IH[OF this] f1 show ?thesis by (blast intro: unchanged_by_guards_trans)
  qed
qed

lemma guard_step_hook:
  "guard_step E p u s = (Inl (HookError k x), s') \<Longrightarrow> k = ShouldNavigate \<or> k = Condition"
  by (auto simp: guard_step_eq split: option.splits sum.splits bool.splits prod.splits
      dest!: assign_route_error)

lemma shouldNavigate_loop_hook:
  "shouldNavigate_loop E ps u s = (Inl (HookError k x), s') \<Longrightarrow> k = ShouldNavigate \<or> k = Condition"
proof (induction ps arbitrary: u s)
  case Nil
  then show ?case by simp
next
  case (Cons p ps)
  obtain r1 s1 where st: "guard_step E p u s = (r1, s1)" by (cases "guard_step E p u s")
  show ?case
  proof (cases r1)
    case (Inl e)
    with Cons.prems st have "guard_step E p u s = (Inl (HookError k x), s')"
      by (simp add: shouldNavigate_loop_Cons)
    then show ?thesis by (rule guard_step_hook)
  next
    case (Inr u1)
    with Cons.prems st have "shouldNavigate_loop E ps u1 s1 = (Inl (HookError k x), s')"
      by (simp add: shouldNavigate_loop_Cons)
    then show ?thesis by (rule Cons.IH)
  qed
qed

lemma beforeNavigation_loop_hook:
  "beforeNavigation_loop ps c = Inl e \<Longrightarrow> \<exists>x. e = HookError BeforeNavigation x"
  by (induction ps) (auto split: option.splits sum.splits)

lemma afterNavigation_loop_hook:
  "afterNavigation_loop ps c = Inl e \<Longrightarrow> \<exists>x. e = HookError AfterNavigation x"
  by (induction ps) (auto split: option.splits sum.splits)

lemma guard_step_passes:
  "guard_passes (this_context s) p \<Longrightarrow> guard_step E p u s = (Inr u, s)"
  by (auto simp: guard_step_eq guard_passes_def split: option.splits sum.splits bool.splits)

lemma shouldNavigate_loop_passes:
  "list_all (guard_passes (this_context s)) ps \<Longrightarrow> shouldNavigate_loop E ps u s = (Inr u, s)"
  by (induction ps) (simp_all add: shouldNavigate_loop_Cons guard_step_passes)

lemma guard_step_no_route_url:
  assumes "this_route s = None" and "get_fallback E s = Some f" and "unmatched s f"
    and "guard_finds_no_route E s p"
  shows "guard_step E p u s = (Inr (redirected_url E s [p] u), s)"
proof -
  have same: "s\<lparr>this_route := None\<rparr> = s" using assms(1) by (cases s) simp
  have ar: "assign_route E s v = (Inr (), s)" if "unmatched s v" for v
    using assign_route_unmatched[OF that assms(2,3)] by (simp add: same)
  show ?thesis
  proof (cases "shouldNavigate p")
    case None
    then show ?thesis by (simp add: guard_step_eq)
  next
    case (Some h)
    note h = this
    show ?thesis
    proof (cases "h (this_context s)")
      case (Inl x)
      with assms(4) h show ?thesis by (simp add: guard_finds_no_route_def)
    next
      case (Inr go)
      note go = this
      show ?thesis
      proof (cases go)
        case None
        with h go show ?thesis by (simp add: guard_step_eq)
      next
        case (Some g)
        note g = this
        show ?thesis
        proof (cases "condition g")
          case (Inl x)
          with assms(4) h go g show ?thesis by (simp add: guard_finds_no_route_def)
        next
          case (Inr b)
          show ?thesis
          proof (cases b)
            case True
            with h go g Inr show ?thesis by (simp add: guard_step_eq)
          next
            case False
            with assms(4) h go g Inr obtain v where
              v: "URL_in_base E s (redirect g) = Some v" "unmatched s v"
              by (auto simp: guard_finds_no_route_def split: option.splits)
            with h go g Inr False show ?thesis by (simp add: guard_step_eq ar)
          qed
        qed
      qed
    qed
  qed
qed

lemma shouldNavigate_loop_no_route_url:
  assumes "this_route s = None" and "get_fallback E s = Some f" and "unmatched s f"
    and "list_all (guard_finds_no_route E s) ps"
  shows "shouldNavigate_loop E ps u s = (Inr (redirected_url E s ps u), s)"
  using assms(4)
proof (induction ps arbitrary: u)
  case Nil
  then show ?case by simp
next
  case (Cons p ps)
  then have "guard_step E p u s = (Inr (redirected_url E s [p] u), s)"
    using guard_step_no_route_url[OF assms(1-3), of p u] by simp
  moreover from Cons have "shouldNavigate_loop E ps (redirected_url E s [p] u) s =
      (Inr (redirected_url E s ps (redirected_url E s [p] u)), s)" by simp
  ultimately show ?case by (simp add: shouldNavigate_loop_Cons)
qed

lemma redirected_url_route:
  "redirected_url E (s\<lparr>this_route := r\<rparr>) ps u = redirected_url E s ps u"
  by (induction ps arbitrary: u) (simp_all split: option.splits sum.splits bool.splits)

subsection \<open>\<^verbatim>\<open>navigate\<close>, phase by phase\<close>

lemma commit_fields:
  "history (commit E s u) = history s @ [pathname u @ search u]"
  "document_title (commit E s u) = title (this_context s)"
  "events (commit E s u) = events s @ [this_context s]"
  "this_context (commit E s u) = this_context s"
  "this_route (commit E s u) = this_route s"
  "this_config (commit E s u) = this_config s"
  "this_routes (commit E s u) = this_routes s"
  "location (commit E s u) = pushState_url E (location s) (pathname u @ search u)"
  by (simp_all add: commit_def notifyUrlChanged_def)

lemma navigate_cases:
  assumes "navigate E s t = (res, s')"
  obtains
    (bad_target) "target_url E s t = None" "res = Inl TypeError" "s' = s"
  | (bad_fallback) u where "target_url E s t = Some u" "assign_route E s u = (Inl TypeError, s)"
      "res = Inl TypeError" "s' = s"
  | (guard_error) u s1 e where "target_url E s t = Some u" "assign_route E s u = (Inr (), s1)"
      "shouldNavigate_loop E (effective_plugins s1) u s1 = (Inl e, s')" "res = Inl e"
  | (unroutable) u s1 u' where "target_url E s t = Some u" "assign_route E s u = (Inr (), s1)"
      "shouldNavigate_loop E (effective_plugins s1) u s1 = (Inr u', s')" "this_route s' = None"
      "res = Inl (Unroutable u')"
  | (before_error) u s1 u' e where "target_url E s t = Some u" "assign_route E s u = (Inr (), s1)"
      "shouldNavigate_loop E (effective_plugins s1) u s1 = (Inr u', s')" "this_route s' \<noteq> None"
      "beforeNavigation_loop (effective_plugins s1) (this_context s') = Inl e" "res = Inl e"
  | (committed) u s1 u' s2 where "target_url E s t = Some u" "assign_route E s u = (Inr (), s1)"
      "shouldNavigate_loop E (effective_plugins s1) u s1 = (Inr u', s2)" "this_route s2 \<noteq> None"
      "beforeNavigation_loop (effective_plugins s1) (this_context s2) = Inr ()"
      "s' = commit E s2 u'"
      "res = afterNavigation_loop (effective_plugins s1) (this_context s2)"
proof (cases "target_url E s t")
  case None
  with assms show ?thesis by (intro bad_target) (simp_all add: navigate_def)
next
  case (Some u)
  note tu = this
  obtain r1 s1 where a: "assign_route E s u = (r1, s1)" by (cases "assign_route E s u")
  show ?thesis
  proof (cases r1)
    case (Inl e)
    with a have "e = TypeError \<and> s1 = s" using assign_route_error by blast
    with assms tu a Inl show ?thesis by (intro bad_fallback[of u]) (simp_all add: navigate_def)
  next
    case (Inr x)
    with a have a': "assign_route E s u = (Inr (), s1)" by simp
    obtain r2 s2 where g: "shouldNavigate_loop E (effective_plugins s1) u s1 = (r2, s2)"
      by (cases "shouldNavigate_loop E (effective_plugins s1) u s1")
    show ?thesis
    proof (cases r2)
      case (Inl e)
      with assms tu a' g show ?thesis
        by (intro guard_error[of u s1 e]) (simp_all add: navigate_def)
    next
      case (Inr u')
      note u' = this
      show ?thesis
      proof (cases "this_route s2")
        case None
        with assms tu a' g u' show ?thesis
          by (intro unroutable[of u s1 u']) (simp_all add: navigate_def)
      next
        case (Some r)
        note r = this
        show ?thesis
        proof (cases "beforeNavigation_loop (effective_plugins s1) (this_context s2)")
          case (Inl e)
          with assms tu a' g u' r show ?thesis
            by (intro before_error[of u s1 u' e]) (simp_all add: navigate_def)
        next
          case (Inr y)
          have "s' = commit E s2 u' \<and> res = afterNavigation_loop (effective_plugins s1) (this_context s2)"
            using assms tu a' g u' r Inr
            by (auto simp: navigate_def Let_def commit_fields split: sum.splits)
          with tu a' g u' r Inr show ?thesis
            by (intro committed[of u s1 u' s2]) simp_all
        qed
      qed
    qed
  qed
qed

lemma navigate_finish:
  assumes "target_url E s t = Some u" and "assign_route E s u = (Inr (), a)"
  shows "navigate E s t =
           (case shouldNavigate_loop E (effective_plugins a) u a of
              (Inl e, b) \<Rightarrow> (Inl e, b)
            | (Inr u', b) \<Rightarrow> finish_navigation E (effective_plugins a) u' b)"
  using assms
  by (simp add: navigate_def finish_navigation_def Let_def split: prod.splits sum.splits)

lemma navigate_context:
  assumes "target_url E s t = Some u" and "assign_route E s u = (Inr (), a)"
    and "shouldNavigate_loop E (effective_plugins a) u a = (Inr u', b)"
  shows "this_context (snd (navigate E s t)) = this_context b"
  using assms
  by (simp add: navigate_def Let_def commit_fields split: option.splits sum.splits)

subsection \<open>Routers with the same core\<close>

lemma same_core_fallback: "same_core E x y \<Longrightarrow> get_fallback E x = get_fallback E y"
  by (simp add: same_core_def get_fallback_def URL_in_base_def)

lemma same_core_URL_in_base: "same_core E x y \<Longrightarrow> URL_in_base E x v = URL_in_base E y v"
  by (simp add: same_core_def URL_in_base_def)

lemma same_core_plugins: "same_core E x y \<Longrightarrow> effective_plugins x = effective_plugins y"
  by (simp add: same_core_def effective_plugins_def)

lemma assign_route_same_core:
  assumes "same_core E x y"
  shows "fst (assign_route E x u) = fst (assign_route E y u) \<and>
         same_core E (snd (assign_route E x u)) (snd (assign_route E y u))"
proof -
  have fb: "get_fallback E x = get_fallback E y" using assms by (rule same_core_fallback)
  have rs: "this_routes x = this_routes y" using assms by (simp add: same_core_def)
  show ?thesis
    using assms
    by (auto simp: assign_route_first_match fb rs same_core_def split: option.splits)
qed

lemma assign_route_routable_same_core:
  assumes "this_config x = this_config y" and "this_routes x = this_routes y"
    and "get_baseUrl E x = get_baseUrl E y"
    and "assign_route E x u = (Inr (), a)" and "this_route a \<noteq> None"
  shows "\<exists>b. assign_route E y u = (Inr (), b) \<and> same_core E a b"
proof -
  have fb: "get_fallback E x = get_fallback E y"
    using assms(1,3) by (simp add: get_fallback_def URL_in_base_def)
  show ?thesis
    using assms
    by (auto simp: assign_route_first_match fb same_core_def split: option.splits)
qed

lemma guard_step_same_core:
  assumes "same_core E x y"
  shows "fst (guard_step E p u x) = fst (guard_step E p u y) \<and>
         same_core E (snd (guard_step E p u x)) (snd (guard_step E p u y))"
proof -
  have c: "this_context x = this_context y" using assms by (simp add: same_core_def)
  have ub: "URL_in_base E x v = URL_in_base E y v" for v
    using assms by (rule same_core_URL_in_base)
  have ar: "fst (assign_route E x v) = fst (assign_route E y v) \<and>
            same_core E (snd (assign_route E x v)) (snd (assign_route E y v))" for v
    using assms by (rule assign_route_same_core)
  show ?thesis
  proof (cases "shouldNavigate p")
    case None
    with assms show ?thesis by (simp add: guard_step_eq)
  next
    case (Some h)
    note h = this
    show ?thesis
    proof (cases "h (this_context y)")
      case (Inl e)
      with assms h c show ?thesis by (simp add: guard_step_eq)
    next
      case (Inr go)
      note go = this
      show ?thesis
      proof (cases go)
        case None
        with assms h c go show ?thesis by (simp add: guard_step_eq)
      next
        case (Some g)
        note g = this
        show ?thesis
        proof (cases "condition g")
          case (Inl e)
          with assms h c go g show ?thesis by (simp add: guard_step_eq)
        next
          case (Inr b)
          note b = this
          show ?thesis
          proof (cases b)
            case True
            with assms h c go g b show ?thesis by (simp add: guard_step_eq)
          next
            case False
            note f = this
            show ?thesis
            proof (cases "URL_in_base E y (redirect g)")
              case None
              with assms h c go g b f ub show ?thesis by (simp add: guard_step_eq)
            next
              case (Some v)
              obtain rx sx where x: "assign_route E x v = (rx, sx)" by (cases "assign_route E x v")
              obtain ry sy where y: "assign_route E y v = (ry, sy)" by (cases "assign_route E y v")
              from ar[of v] x y have "rx = ry" "same_core E sx sy" by simp_all
              with h c go g b f ub Some x y show ?thesis
                by (simp add: guard_step_eq split: sum.splits)
            qed
          qed
        qed
      qed
    qed
  qed
qed

lemma shouldNavigate_loop_same_core:
  "same_core E x y \<Longrightarrow>
     fst (shouldNavigate_loop E ps u x) = fst (shouldNavigate_loop E ps u y) \<and>
     same_core E (snd (shouldNavigate_loop E ps u x)) (snd (shouldNavigate_loop E ps u y))"
proof (induction ps arbitrary: u x y)
  case Nil
  then show ?case by simp
next
  case (Cons p ps)
  obtain rx sx where x: "guard_step E p u x = (rx, sx)" by (cases "guard_step E p u x")
  obtain ry sy where y: "guard_step E p u y = (ry, sy)" by (cases "guard_step E p u y")
  from guard_step_same_core[OF Cons.prems, of p u] x y have eq: "rx = ry" "same_core E sx sy"
    by simp_all
  show ?case
  proof (cases ry)
    case (Inl e)
    with x y eq show ?thesis by (simp add: shouldNavigate_loop_Cons)
  next
    case (Inr u1)
    with x y eq Cons.IH[OF eq(2), of u1] show ?thesis by (simp add: shouldNavigate_loop_Cons)
  qed
qed

subsection \<open>Routers that differ in the plugins of their routes\<close>

lemma match_context_same_but_plugins:
  "same_but_plugins r r' \<Longrightarrow> match_context E r u g = match_context E r' u g"
  by (simp add: match_context_def same_but_plugins_def)

lemma first_match_same_but_plugins:
  "list_all2 same_but_plugins rs rs' \<Longrightarrow>
     rel_option (\<lambda>(r, c) (r', c'). same_but_plugins r r' \<and> c = c')
       (first_match E rs u) (first_match E rs' u)"
proof (induction rule: list_all2_induct)
  case Nil
  then show ?case by simp
next
  case (Cons r rs r' rs')
  from Cons(1) have p: "urlPattern r = urlPattern r'" by (simp add: same_but_plugins_def)
  show ?case
  proof (cases "urlPattern r' u")
    case None
    with p Cons.IH show ?thesis by simp
  next
    case (Some g)
    with p Cons(1) show ?thesis by (simp add: match_context_same_but_plugins)
  qed
qed

lemma same_but_route_plugins_fallback:
  "same_but_route_plugins x y \<Longrightarrow> get_fallback E x = get_fallback E y"
  by (simp add: same_but_route_plugins_def get_fallback_def URL_in_base_def get_baseUrl_def)

lemma same_but_route_plugins_URL_in_base:
  "same_but_route_plugins x y \<Longrightarrow> URL_in_base E x v = URL_in_base E y v"
  by (simp add: same_but_route_plugins_def URL_in_base_def get_baseUrl_def)

lemma assign_route_same_but_route_plugins:
  assumes "same_but_route_plugins x y"
  shows "fst (assign_route E x u) = fst (assign_route E y u) \<and>
         same_but_route_plugins (snd (assign_route E x u)) (snd (assign_route E y u))"
proof -
  have fb: "get_fallback E x = get_fallback E y"
    using assms by (rule same_but_route_plugins_fallback)
  have rs: "list_all2 same_but_plugins (this_routes x) (this_routes y)"
    using assms by (simp add: same_but_route_plugins_def)
  note fm = first_match_same_but_plugins[OF rs, of E]
  show ?thesis
  proof (cases "first_match E (this_routes y) u")
    case (Some rc)
    with fm[of u] obtain r c r' where "first_match E (this_routes x) u = Some (r, c)"
      "rc = (r', c)" "same_but_plugins r r'"
      by (cases "first_match E (this_routes x) u") auto
    with Some assms show ?thesis
      by (simp add: assign_route_first_match same_but_route_plugins_def)
  next
    case None
    with fm[of u] have nx: "first_match E (this_routes x) u = None"
      by (cases "first_match E (this_routes x) u") auto
    show ?thesis
    proof (cases "get_fallback E y")
      case None
      with nx \<open>first_match E (this_routes y) u = None\<close> fb assms show ?thesis
        by (simp add: assign_route_first_match)
    next
      case (Some f)
      note f = this
      show ?thesis
      proof (cases "first_match E (this_routes y) f")
        case None
        with fm[of f] have "first_match E (this_routes x) f = None"
          by (cases "first_match E (this_routes x) f") auto
        with None nx \<open>first_match E (this_routes y) u = None\<close> fb f assms show ?thesis
          by (simp add: assign_route_first_match same_but_route_plugins_def)
      next
        case (Some rc)
        with fm[of f] obtain r c r' where "first_match E (this_routes x) f = Some (r, c)"
          "rc = (r', c)" "same_but_plugins r r'"
          by (cases "first_match E (this_routes x) f") auto
        with Some nx \<open>first_match E (this_routes y) u = None\<close> fb f assms show ?thesis
          by (simp add: assign_route_first_match same_but_route_plugins_def)
      qed
    qed
  qed
qed

lemma guard_step_same_but_route_plugins:
  assumes "same_but_route_plugins x y"
  shows "fst (guard_step E p u x) = fst (guard_step E p u y) \<and>
         same_but_route_plugins (snd (guard_step E p u x)) (snd (guard_step E p u y))"
proof -
  have c: "this_context x = this_context y" using assms by (simp add: same_but_route_plugins_def)
  have ub: "URL_in_base E x v = URL_in_base E y v" for v
    using assms by (rule same_but_route_plugins_URL_in_base)
  have ar: "fst (assign_route E x v) = fst (assign_route E y v) \<and>
            same_but_route_plugins (snd (assign_route E x v)) (snd (assign_route E y v))" for v
    using assms by (rule assign_route_same_but_route_plugins)
  show ?thesis
  proof (cases "shouldNavigate p")
    case None
    with assms show ?thesis by (simp add: guard_step_eq)
  next
    case (Some h)
    note h = this
    show ?thesis
    proof (cases "h (this_context y)")
      case (Inl e)
      with assms h c show ?thesis by (simp add: guard_step_eq)
    next
      case (Inr go)
      note go = this
      show ?thesis
      proof (cases go)
        case None
        with assms h c go show ?thesis by (simp add: guard_step_eq)
      next
        case (Some g)
        note g = this
        show ?thesis
        proof (cases "condition g")
          case (Inl e)
          with assms h c go g show ?thesis by (simp add: guard_step_eq)
        next
          case (Inr b)
          note b = this
          show ?thesis
          proof (cases b)
            case True
            with assms h c go g b show ?thesis by (simp add: guard_step_eq)
          next
            case False
            note f = this
            show ?thesis
            proof (cases "URL_in_base E y (redirect g)")
              case None
              with assms h c go g b f ub show ?thesis by (simp add: guard_step_eq)
            next
              case (Some v)
              obtain rx sx where x: "assign_route E x v = (rx, sx)" by (cases "assign_route E x v")
              obtain ry sy where y: "assign_route E y v = (ry, sy)" by (cases "assign_route E y v")
              from ar[of v] x y have "rx = ry" "same_but_route_plugins sx sy" by simp_all
              with h c go g b f ub Some x y show ?thesis
                by (simp add: guard_step_eq split: sum.splits)
            qed
          qed
        qed
      qed
    qed
  qed
qed

lemma shouldNavigate_loop_same_but_route_plugins:
  "same_but_route_plugins x y \<Longrightarrow>
     fst (shouldNavigate_loop E ps u x) = fst (shouldNavigate_loop E ps u y) \<and>
     same_but_route_plugins (snd (shouldNavigate_loop E ps u x)) (snd (shouldNavigate_loop E ps u y))"
proof (induction ps arbitrary: u x y)
  case Nil
  then show ?case by simp
next
  case (Cons p ps)
  obtain rx sx where x: "guard_step E p u x = (rx, sx)" by (cases "guard_step E p u x")
  obtain ry sy where y: "guard_step E p u y = (ry, sy)" by (cases "guard_step E p u y")
  from guard_step_same_but_route_plugins[OF Cons.prems, of E p u] x y
  have eq: "rx = ry" "same_but_route_plugins sx sy" by simp_all
  show ?case
  proof (cases ry)
    case (Inl e)
    with x y eq show ?thesis by (simp add: shouldNavigate_loop_Cons)
  next
    case (Inr u1)
    with x y eq Cons.IH[OF eq(2), of u1] show ?thesis by (simp add: shouldNavigate_loop_Cons)
  qed
qed

lemma commit_same_but_route_plugins:
  "same_but_route_plugins x y \<Longrightarrow> same_but_route_plugins (commit E x u) (commit E y u)"
  by (simp add: same_but_route_plugins_def commit_fields)

subsection \<open>Evaluating the example application\<close>

lemmas example_defs = navigate_def target_url_def URL_in_base_def get_baseUrl_def get_fallback_def
  assign_route_def matchRoute_def effective_plugins_def commit_def notifyUrlChanged_def match_context_def
  app_env_def app_url_def app_router_def page_def exact_def no_hooks_def redirects_to_def Object_fromEntries_def
  unmatched_def

lemmas loop_eval = shouldNavigate_loop_Cons guard_step_eq

lemmas fixture_defs = plain_config_def catch_all_def throws_before_def throws_after_def one_page_def
  with_fallback_def
  overlapping_def closed_site_def two_guards_def guarded_a_def guarded_a_b_def members_def
  members_terms_def denied_page_def late_page_def bare_page_def blank_anchor_def blank_click_def
  throws_guard_def throws_condition_def forbidden_page_def offline_page_def checks_title_def
  checked_members_def

lemma at_a_eval:
  "at_a = one_page\<lparr>this_context := \<lparr>url = app_url ''/a'', title = ''/a'', params = Map.empty, query = Map.empty\<rparr>,
     this_route := Some (page ''/a'' None), history := [''/a''], location := app_url ''/a'',
     document_title := ''/a'',
     events := [\<lparr>url = app_url ''/a'', title = ''/a'', params = Map.empty, query = Map.empty\<rparr>]\<rparr>"
  by (simp add: at_a_def example_defs fixture_defs)

section \<open>The claims\<close>

subsection \<open>Matching\<close>

text \<open>
  Claim C6. Route-table order is match priority. Whenever two routes of the table, at
  positions \<open>i < j\<close>, both accept a URL, \<^verbatim>\<open>_matchRoute\<close> returns the first route of the
  table that accepts it: a route at a position \<open>k \<le> i\<close>, which accepts the URL and before
  which no route does. So the later route of the pair never wins, and the earlier one
  wins unless a route registered before it accepts the URL too.
\<close>

theorem route_table_order_is_match_priority:
  assumes "i < j" and "j < length (this_routes s)"
    and "urlPattern (this_routes s ! i) u \<noteq> None"
    and "urlPattern (this_routes s ! j) u \<noteq> None"
  shows "\<exists>k\<le>i. fst (matchRoute E s u) = Some (this_routes s ! k) \<and>
            urlPattern (this_routes s ! k) u \<noteq> None \<and>
            (\<forall>m<k. urlPattern (this_routes s ! m) u = None)"
  using assms matchRoute_loop_first[of i "this_routes s" u E s] by (simp add: matchRoute_def)

text \<open>In the example, \<^verbatim>\<open>/a\<close> and \<^verbatim>\<open>/:x\<close> both accept \<^verbatim>\<open>/a\<close>.\<close>

theorem route_table_order_is_match_priority_witness:
  "(0::nat) < 1 \<and> 1 < length (this_routes overlapping) \<and>
   urlPattern (this_routes overlapping ! 0) (app_url ''/a'') \<noteq> None \<and>
   urlPattern (this_routes overlapping ! 1) (app_url ''/a'') \<noteq> None \<and>
   (\<exists>k\<le>0. fst (matchRoute app_env overlapping (app_url ''/a'')) = Some (this_routes overlapping ! k) \<and>
      urlPattern (this_routes overlapping ! k) (app_url ''/a'') \<noteq> None \<and>
      (\<forall>m<k. urlPattern (this_routes overlapping ! m) (app_url ''/a'') = None))"
proof -
  have h: "(0::nat) < 1" "1 < length (this_routes overlapping)"
    "urlPattern (this_routes overlapping ! 0) (app_url ''/a'') \<noteq> None"
    "urlPattern (this_routes overlapping ! 1) (app_url ''/a'') \<noteq> None"
    by (simp_all add: example_defs fixture_defs)
  from h route_table_order_is_match_priority[OF h, of app_env] show ?thesis by blast
qed

text \<open>
  Claim C2, as stated, fails twice. \<^verbatim>\<open>_matchRoute\<close> is not free of effects: when a route
  matches it assigns \<^verbatim>\<open>this.context\<close> itself, before it returns (first three facts).
  And the assignment is not made once per navigation attempt. In the second router the
  guard of \<^verbatim>\<open>/members\<close> lets the initial context pass and redirects only a context
  whose title is \<^verbatim>\<open>/members\<close>; a navigation to \<^verbatim>\<open>/members\<close> ends with the context of
  \<^verbatim>\<open>/login\<close>. So the context was assigned for \<^verbatim>\<open>/members\<close> before the guard ran, and
  again for \<^verbatim>\<open>/login\<close> at the redirect: twice in one navigation.
\<close>

theorem matchRoute_assigns_context_counterexample:
  "fst (matchRoute app_env one_page (app_url ''/a'')) \<noteq> None \<and>
   title (this_context one_page) = [] \<and>
   title (this_context (snd (matchRoute app_env one_page (app_url ''/a'')))) = ''/a'' \<and>
   title (this_context checked_members) = [] \<and>
   guard_passes (this_context checked_members) checks_title \<and>
   effective_plugins (snd (assign_route app_env checked_members (app_url ''/members''))) =
     [checks_title] \<and>
   fst (navigate app_env checked_members (Str ''/members'')) = Inr () \<and>
   title (this_context (snd (navigate app_env checked_members (Str ''/members'')))) = ''/login''"
  by (simp add: example_defs fixture_defs loop_eval Let_def guard_passes_def)

text \<open>
  Claim C2, amended. The route \<^verbatim>\<open>_matchRoute\<close> returns depends on the route table and
  the URL alone: two routers with the same table get the same route. The call leaves the
  current route, the configuration, the table and the browser's state as they were; its
  one effect is on the current context, which it replaces, when a route matches, by the
  context built from that route, the URL and the match; when no route matches, the
  router is unchanged. The assignment is made once at every call that matches, not once
  per navigation attempt: when the target has a route and a guard of the effective list,
  given the context assigned for the target, redirects to a URL that has a route (the
  guards before it passing that context, the guards after it the new one), the
  navigation ends with the context built for the redirect URL.
\<close>

theorem matchRoute_effect:
  assumes "this_routes s' = this_routes s"
  shows "fst (matchRoute E s' u) = fst (matchRoute E s u) \<and>
         (case fst (matchRoute E s u) of
            None \<Rightarrow> snd (matchRoute E s u) = s
          | Some r \<Rightarrow> \<exists>g. urlPattern r u = Some g \<and>
               snd (matchRoute E s u) = s\<lparr>this_context := match_context E r u g\<rparr>) \<and>
         (target_url E s t = Some u \<and> matchRoute E s u = (Some r0, s0) \<and>
          effective_plugins (s0\<lparr>this_route := Some r0\<rparr>) = ps1 @ p # ps2 \<and>
          list_all (guard_passes (this_context s0)) ps1 \<and>
          shouldNavigate p = Some h \<and> h (this_context s0) = Inr (Some g) \<and>
          condition g = Inr False \<and> URL_in_base E s0 (redirect g) = Some l \<and>
          matchRoute E (s0\<lparr>this_route := Some r0\<rparr>) l = (Some r1, s1) \<and>
          list_all (guard_passes (this_context s1)) ps2 \<longrightarrow>
            (\<exists>g0 g1. urlPattern r0 u = Some g0 \<and> this_context s0 = match_context E r0 u g0 \<and>
               urlPattern r1 l = Some g1 \<and>
               this_context (snd (navigate E s t)) = match_context E r1 l g1))"
proof -
  have call: "fst (matchRoute E s' u) = fst (matchRoute E s u) \<and>
         (case fst (matchRoute E s u) of
            None \<Rightarrow> snd (matchRoute E s u) = s
          | Some r \<Rightarrow> \<exists>g. urlPattern r u = Some g \<and>
               snd (matchRoute E s u) = s\<lparr>this_context := match_context E r u g\<rparr>)"
    using assms matchRoute_loop_frame[where E=E and rs="this_routes s" and u=u and s=s]
      matchRoute_loop_route_indep[where E=E and rs="this_routes s" and u=u and s'=s' and s=s]
    by (auto simp: matchRoute_def split: option.splits)
  have built: "\<exists>g. urlPattern r v = Some g \<and> this_context x' = match_context E r v g"
    if "matchRoute E x v = (Some r, x')" for x v r x'
    using that matchRoute_loop_frame[where E=E and rs="this_routes x" and u=v and s=x]
    by (auto simp: matchRoute_def)
  have nav: "\<exists>g0 g1. urlPattern r0 u = Some g0 \<and> this_context s0 = match_context E r0 u g0 \<and>
               urlPattern r1 l = Some g1 \<and>
               this_context (snd (navigate E s t)) = match_context E r1 l g1"
    if tu: "target_url E s t = Some u" and m0: "matchRoute E s u = (Some r0, s0)"
      and ps: "effective_plugins (s0\<lparr>this_route := Some r0\<rparr>) = ps1 @ p # ps2"
      and p1: "list_all (guard_passes (this_context s0)) ps1"
      and hk: "shouldNavigate p = Some h" "h (this_context s0) = Inr (Some g)"
        "condition g = Inr False" "URL_in_base E s0 (redirect g) = Some l"
      and m1: "matchRoute E (s0\<lparr>this_route := Some r0\<rparr>) l = (Some r1, s1)"
      and p2: "list_all (guard_passes (this_context s1)) ps2"
  proof -
    let ?a = "s0\<lparr>this_route := Some r0\<rparr>"
    let ?b = "s1\<lparr>this_route := Some r1\<rparr>"
    have a: "assign_route E s u = (Inr (), ?a)" using m0 by (simp add: assign_route_def)
    have l1: "shouldNavigate_loop E ps1 u ?a = (Inr u, ?a)"
      using p1 by (intro shouldNavigate_loop_passes) simp
    have a2: "assign_route E ?a l = (Inr (), ?b)" using m1 by (simp add: assign_route_def)
    have st: "guard_step E p u ?a = (Inr l, ?b)"
      using hk a2 by (simp add: guard_step_eq)
    have l2: "shouldNavigate_loop E ps2 l ?b = (Inr l, ?b)"
      using p2 by (intro shouldNavigate_loop_passes) simp
    have "shouldNavigate_loop E (effective_plugins ?a) u ?a = (Inr l, ?b)"
      by (simp add: ps shouldNavigate_loop_append l1 shouldNavigate_loop_Cons st l2)
    from navigate_context[OF tu a this]
    have "this_context (snd (navigate E s t)) = this_context s1" by simp
    with built[OF m0] built[OF m1] show ?thesis by auto
  qed
  from call nav show ?thesis by blast
qed

text \<open>
  The first four facts are about one call, at the page \<^verbatim>\<open>/a\<close>; the last three about the
  navigation to \<^verbatim>\<open>/members\<close>, whose guard sees the context of \<^verbatim>\<open>/members\<close> and which ends
  with the context of \<^verbatim>\<open>/login\<close>.
\<close>

theorem matchRoute_effect_witness:
  "this_routes at_a = this_routes one_page \<and>
   fst (matchRoute app_env at_a (app_url ''/a'')) = fst (matchRoute app_env one_page (app_url ''/a'')) \<and>
   map_option path (fst (matchRoute app_env one_page (app_url ''/a''))) = Some ''/a'' \<and>
   title (this_context (snd (matchRoute app_env one_page (app_url ''/a'')))) = ''/a'' \<and>
   target_url app_env checked_members (Str ''/members'') = Some (app_url ''/members'') \<and>
   title (this_context (snd (matchRoute app_env checked_members (app_url ''/members'')))) =
     ''/members'' \<and>
   this_context (snd (navigate app_env checked_members (Str ''/members''))) =
     match_context app_env (page ''/login'' None) (app_url ''/login'') Map.empty"
proof -
  have h: "this_routes at_a = this_routes one_page"
    by (simp add: at_a_eval)
  have e: "map_option path (fst (matchRoute app_env one_page (app_url ''/a''))) = Some ''/a''"
    "title (this_context (snd (matchRoute app_env one_page (app_url ''/a'')))) = ''/a''"
    by (simp_all add: example_defs fixture_defs)
  note call = matchRoute_effect[OF h, of app_env "app_url ''/a''", THEN conjunct1]
  let ?u = "app_url ''/members''"
  let ?l = "app_url ''/login''"
  let ?r0 = "page ''/members'' (Some [checks_title])"
  let ?r1 = "page ''/login'' None"
  let ?s0 = "snd (matchRoute app_env checked_members ?u)"
  let ?a = "?s0\<lparr>this_route := Some ?r0\<rparr>"
  let ?s1 = "snd (matchRoute app_env ?a ?l)"
  let ?g = "\<lparr>condition = Inr False, redirect = ''/login''\<rparr> :: guard"
  let ?h = "\<lambda>c. if title c = ''/members'' then Inr (Some ?g) else Inr None :: exn + guard option"
  have tu: "target_url app_env checked_members (Str ''/members'') = Some ?u"
    by (simp add: example_defs)
  have "fst (matchRoute app_env checked_members ?u) = Some ?r0"
    by (simp add: example_defs fixture_defs)
  then have m0: "matchRoute app_env checked_members ?u = (Some ?r0, ?s0)"
    by (metis prod.collapse)
  have t0: "title (this_context ?s0) = ''/members''"
    by (simp add: example_defs fixture_defs)
  have ps: "effective_plugins ?a = [] @ checks_title # []"
    by (simp add: example_defs fixture_defs)
  have hk: "shouldNavigate checks_title = Some ?h" "?h (this_context ?s0) = Inr (Some ?g)"
    "condition ?g = Inr False" "URL_in_base app_env ?s0 (redirect ?g) = Some ?l"
    by (simp_all add: example_defs fixture_defs)
  have "fst (matchRoute app_env ?a ?l) = Some ?r1"
    by (simp add: example_defs fixture_defs)
  then have m1: "matchRoute app_env ?a ?l = (Some ?r1, ?s1)"
    by (metis prod.collapse)
  have p: "list_all (guard_passes (this_context ?s0)) []" "list_all (guard_passes (this_context ?s1)) []"
    by simp_all
  have g1: "urlPattern ?r1 ?l = Some Map.empty"
    by (simp add: example_defs)
  from matchRoute_effect[OF refl, of app_env checked_members ?u "Str ''/members''" ?r0 ?s0
      "[]" checks_title "[]" ?h ?g ?l ?r1 ?s1, THEN conjunct2, THEN conjunct2]
    tu m0 ps hk m1 p
  obtain g1' where "urlPattern ?r1 ?l = Some g1'"
    "this_context (snd (navigate app_env checked_members (Str ''/members''))) =
       match_context app_env ?r1 ?l g1'"
    by blast
  with g1 have n: "this_context (snd (navigate app_env checked_members (Str ''/members''))) =
       match_context app_env ?r1 ?l Map.empty" by simp
  from h call e tu t0 n show ?thesis by simp
qed

subsection \<open>Back and forward\<close>

text \<open>
  Claim C10. On a \<^verbatim>\<open>popstate\<close> event the handler matches the current URL only. When no
  compiled route accepts it, the current route becomes \<^verbatim>\<open>null\<close>, the current context
  keeps its value, and the event is dispatched all the same, with that context. The
  fallback is not consulted: the equation holds whatever the configuration is, also
  when the fallback URL has a route.
\<close>

theorem popstate_without_match:
  assumes "unmatched s (location s)"
  shows "onPopState E s = s\<lparr>this_route := None, events := events s @ [this_context s]\<rparr>"
  using assms by (simp add: onPopState_def matchRoute_unmatched notifyUrlChanged_def)

text \<open>
  In the example the fallback \<^verbatim>\<open>/a\<close> has a route, the current URL \<^verbatim>\<open>/start\<close> has
  none, and the current route is \<^verbatim>\<open>null\<close> after the event.
\<close>

theorem popstate_without_match_witness:
  "unmatched with_fallback (location with_fallback) \<and>
   get_fallback app_env with_fallback = Some (app_url ''/a'') \<and>
   map_option path (fst (matchRoute app_env with_fallback (app_url ''/a''))) = Some ''/a'' \<and>
   onPopState app_env with_fallback =
     with_fallback\<lparr>this_route := None,
       events := events with_fallback @ [this_context with_fallback]\<rparr>"
proof -
  have h: "unmatched with_fallback (location with_fallback)"
    by (simp add: example_defs fixture_defs)
  have f: "get_fallback app_env with_fallback = Some (app_url ''/a'')"
    "map_option path (fst (matchRoute app_env with_fallback (app_url ''/a''))) = Some ''/a''"
    by (simp_all add: example_defs fixture_defs)
  from h f popstate_without_match[OF h, of app_env] show ?thesis by blast
qed

subsection \<open>Anchor clicks\<close>

text \<open>
  Claim C9. A click with the meta, ctrl or shift key down, or whose anchor (the first
  element with tag \<^verbatim>\<open>A\<close> in the event's composed path) has \<^verbatim>\<open>target="_blank"\<close> or a
  \<^verbatim>\<open>download\<close> attribute, is left to the browser: the handler does not call
  \<^verbatim>\<open>preventDefault\<close>, does not call \<^verbatim>\<open>navigate\<close>, and the router is unchanged.
\<close>

theorem anchor_click_exclusions:
  assumes "metaKey e \<or> ctrlKey e \<or> shiftKey e \<or>
           (\<exists>a. find (\<lambda>el. tagName el = ''A'') (composedPath e) = Some a \<and>
                (getAttribute a ''target'' = Some ''_blank'' \<or> hasAttribute a ''download''))"
  shows "prevented (onAnchorClick E s e) = False \<and> navigated (onAnchorClick E s e) = None \<and>
         router_after (onAnchorClick E s e) = s"
  using assms
  by (auto simp: onAnchorClick_def left_to_browser_def Let_def split: option.splits)

theorem anchor_click_exclusions_witness:
  "find (\<lambda>el. tagName el = ''A'') (composedPath blank_click) = Some blank_anchor \<and>
   getAttribute blank_anchor ''target'' = Some ''_blank'' \<and>
   prevented (onAnchorClick app_env one_page blank_click) = False \<and>
   navigated (onAnchorClick app_env one_page blank_click) = None \<and>
   router_after (onAnchorClick app_env one_page blank_click) = one_page"
proof -
  have h: "find (\<lambda>el. tagName el = ''A'') (composedPath blank_click) = Some blank_anchor"
    "getAttribute blank_anchor ''target'' = Some ''_blank''"
    by (simp_all add: fixture_defs getAttribute_def)
  then have "metaKey blank_click \<or> ctrlKey blank_click \<or> shiftKey blank_click \<or>
       (\<exists>a. find (\<lambda>el. tagName el = ''A'') (composedPath blank_click) = Some a \<and>
            (getAttribute a ''target'' = Some ''_blank'' \<or> hasAttribute a ''download''))"
    by blast
  from h anchor_click_exclusions[OF this, of app_env one_page] show ?thesis by blast
qed

subsection \<open>\<^verbatim>\<open>render\<close>\<close>

text \<open>
  Without a current route \<^verbatim>\<open>render()\<close> returns \<^verbatim>\<open>undefined\<close>, and with a route that has
  a \<^verbatim>\<open>render\<close> function it returns what the function returns for the current context.
\<close>

lemma Router_render_no_route: "this_route s = None \<Longrightarrow> Router_render s = Inr None"
  by (simp add: Router_render_def)

lemma Router_render_calls_render:
  assumes "this_route s = Some r" and "render r = Some f"
  shows "Router_render s = Inr (Some (f (this_context s)))"
proof -
  have whole: "\<lparr>url = url c, title = title c, params = params c, query = query c\<rparr> = c"
    for c :: Context
    by (cases c) simp
  from assms show ?thesis by (simp add: Router_render_def whole)
qed

text \<open>
  Claim C7 says that \<^verbatim>\<open>render()\<close> also returns \<^verbatim>\<open>undefined\<close>, without an error, when the
  current route defines no \<^verbatim>\<open>render\<close> function. The code does not: in
  \<^verbatim>\<open>this.route?.render({...})\<close> the optional chain guards the route only, and the call of
  the absent \<^verbatim>\<open>render\<close> throws a \<^verbatim>\<open>TypeError\<close>. Here the router has navigated to a
  route \<^verbatim>\<open>{path: '/a', title: '/a'}\<close>.
\<close>

theorem render_without_render_function:
  "Router_render at_bare = Inl TypeError"
  by (simp add: Router_render_def at_bare_def example_defs fixture_defs)

subsection \<open>Navigation that finds no route\<close>

text \<open>
  Claim C1, as stated, fails twice. In the first router, at \<^verbatim>\<open>/a\<close>, a navigation to
  \<^verbatim>\<open>/zzz\<close> (no route, none for the fallback \<^verbatim>\<open>/\<close> either) is rejected with the
  unroutable-URL error, but the current route does not keep its value: it is \<^verbatim>\<open>null\<close>
  afterwards. In the second router a global guard redirects to \<^verbatim>\<open>/login\<close>: the
  navigation to \<^verbatim>\<open>/zzz\<close> (no route, none for the fallback \<^verbatim>\<open>/404\<close>) is fulfilled and
  pushes a history entry.
\<close>

theorem navigate_unroutable_counterexample:
  "unmatched at_a (app_url ''/zzz'') \<and> get_fallback app_env at_a = Some (app_url ''/'') \<and>
   unmatched at_a (app_url ''/'') \<and>
   fst (navigate app_env at_a (Str ''/zzz'')) = Inl (Unroutable (app_url ''/zzz'')) \<and>
   map_option path (this_route at_a) = Some ''/a'' \<and>
   this_route (snd (navigate app_env at_a (Str ''/zzz''))) = None \<and>
   unmatched login_wall (app_url ''/zzz'') \<and>
   get_fallback app_env login_wall = Some (app_url ''/404'') \<and>
   unmatched login_wall (app_url ''/404'') \<and>
   fst (navigate app_env login_wall (Str ''/zzz'')) = Inr () \<and>
   history (snd (navigate app_env login_wall (Str ''/zzz''))) = [''/login'']"
  by (simp add: at_a_def login_wall_def example_defs fixture_defs loop_eval Let_def)

text \<open>
  Claim C1, amended. When no compiled route accepts the target URL, none accepts the
  fallback URL, and every guard of the global plugins either passes or redirects to a
  URL that again no route accepts (none throws), \<^verbatim>\<open>navigate\<close> is rejected with the
  unroutable-URL error. No history entry is pushed, the title is not set, no event is
  dispatched, and the current context is unchanged; the current route is \<^verbatim>\<open>null\<close>
  afterwards. The theorem gives the whole result: the router is the one before the call
  with the route set to \<^verbatim>\<open>null\<close>, and the error names the URL the guard loop ended
  with, which is the target unless a guard redirected.
\<close>

theorem navigate_unroutable:
  assumes "target_url E s t = Some u" and "unmatched s u"
    and "get_fallback E s = Some f" and "unmatched s f"
    and "list_all (guard_finds_no_route E s) (effective_plugins (s\<lparr>this_route := None\<rparr>))"
  shows "navigate E s t =
           (Inl (Unroutable (redirected_url E s (effective_plugins (s\<lparr>this_route := None\<rparr>)) u)),
            s\<lparr>this_route := None\<rparr>)"
proof -
  let ?s0 = "s\<lparr>this_route := None\<rparr>"
  have a: "assign_route E s u = (Inr (), ?s0)"
    using assms(2-4) by (rule assign_route_unmatched)
  have g: "guard_finds_no_route E ?s0 = guard_finds_no_route E s"
    by (rule ext)
      (auto simp: guard_finds_no_route_def unmatched_def split: option.splits sum.splits bool.splits)
  have "shouldNavigate_loop E (effective_plugins ?s0) u ?s0 =
          (Inr (redirected_url E ?s0 (effective_plugins ?s0) u), ?s0)"
    using assms(3-5)
    by (intro shouldNavigate_loop_no_route_url[where f = f]) (simp_all add: g unmatched_def)
  with assms(1) a show ?thesis
    by (simp add: navigate_def redirected_url_route)
qed

text \<open>
  In the example the global guard redirects \<^verbatim>\<open>/zzz\<close> to \<^verbatim>\<open>/nowhere\<close>, which has no
  route, and the error names \<^verbatim>\<open>/nowhere\<close>.
\<close>

theorem navigate_unroutable_witness:
  "target_url app_env closed_site (Str ''/zzz'') = Some (app_url ''/zzz'') \<and>
   unmatched closed_site (app_url ''/zzz'') \<and>
   get_fallback app_env closed_site = Some (app_url ''/404'') \<and>
   unmatched closed_site (app_url ''/404'') \<and>
   list_all (guard_finds_no_route app_env closed_site)
     (effective_plugins (closed_site\<lparr>this_route := None\<rparr>)) \<and>
   redirected_url app_env closed_site (effective_plugins (closed_site\<lparr>this_route := None\<rparr>))
     (app_url ''/zzz'') = app_url ''/nowhere'' \<and>
   navigate app_env closed_site (Str ''/zzz'') =
      (Inl (Unroutable (app_url ''/nowhere'')), closed_site\<lparr>this_route := None\<rparr>)"
proof -
  have h: "target_url app_env closed_site (Str ''/zzz'') = Some (app_url ''/zzz'')"
    "unmatched closed_site (app_url ''/zzz'')"
    "get_fallback app_env closed_site = Some (app_url ''/404'')"
    "unmatched closed_site (app_url ''/404'')"
    "list_all (guard_finds_no_route app_env closed_site)
       (effective_plugins (closed_site\<lparr>this_route := None\<rparr>))"
    by (simp_all add: example_defs fixture_defs guard_finds_no_route_def)
  have r: "redirected_url app_env closed_site (effective_plugins (closed_site\<lparr>this_route := None\<rparr>))
     (app_url ''/zzz'') = app_url ''/nowhere''"
    by (simp add: example_defs fixture_defs)
  from h r navigate_unroutable[OF h] show ?thesis by simp
qed

subsection \<open>Exceptions of hooks\<close>

text \<open>
  An exception is returned as soon as a hook throws it: the loops stop at the first
  plugin whose hook throws, and give the exception back with the hook it came from.
\<close>

lemma shouldNavigate_loop_throws:
  assumes "shouldNavigate_loop E ps u s = (Inr u1, s1)" and "shouldNavigate p = Some h"
    and "h (this_context s1) = Inl x"
  shows "shouldNavigate_loop E (ps @ p # qs) u s = (Inl (HookError ShouldNavigate x), s1)"
  using assms by (simp add: shouldNavigate_loop_append shouldNavigate_loop_Cons guard_step_eq)

lemma beforeNavigation_loop_throws:
  assumes "beforeNavigation_loop ps c = Inr ()" and "beforeNavigation p = Some h" and "h c = Inl x"
  shows "beforeNavigation_loop (ps @ p # qs) c = Inl (HookError BeforeNavigation x)"
  using assms by (induction ps) (auto split: option.splits sum.splits)

lemma afterNavigation_loop_throws:
  assumes "afterNavigation_loop ps c = Inr ()" and "afterNavigation p = Some h" and "h c = Inl x"
  shows "afterNavigation_loop (ps @ p # qs) c = Inl (HookError AfterNavigation x)"
  using assms by (induction ps) (auto split: option.splits sum.splits)

lemma shouldNavigate_loop_condition_throws:
  assumes "shouldNavigate_loop E ps u s = (Inr u1, s1)" and "shouldNavigate p = Some h"
    and "h (this_context s1) = Inr (Some g)" and "condition g = Inl x"
  shows "shouldNavigate_loop E (ps @ p # qs) u s = (Inl (HookError Condition x), s1)"
  using assms by (simp add: shouldNavigate_loop_append shouldNavigate_loop_Cons guard_step_eq)

text \<open>
  Read from the result: a rejection with the exception of a guard or of a
  \<^verbatim>\<open>beforeNavigation\<close> hook comes without a commit, one with the exception of an
  \<^verbatim>\<open>afterNavigation\<close> hook comes with it.
\<close>

lemma hook_error_commit_status:
  assumes "navigate E s t = (Inl (HookError k x), s')"
  shows "(k \<noteq> AfterNavigation \<longrightarrow>
            history s' = history s \<and> document_title s' = document_title s \<and> events s' = events s) \<and>
         (k = AfterNavigation \<longrightarrow>
            (\<exists>entry. history s' = history s @ [entry]) \<and>
            document_title s' = title (this_context s') \<and>
            events s' = events s @ [this_context s'])"
  using assms
proof (cases rule: navigate_cases)
  case (guard_error u s1 e)
  then have k: "k = ShouldNavigate \<or> k = Condition"
    using shouldNavigate_loop_hook[of E "effective_plugins s1" u s1 k x s'] by auto
  from guard_error have "unchanged_by_guards s s1" "unchanged_by_guards s1 s'"
    using assign_route_frame shouldNavigate_loop_frame by blast+
  with k show ?thesis by (auto simp: unchanged_by_guards_def)
next
  case (before_error u s1 u' e)
  then have k: "k = BeforeNavigation"
    using beforeNavigation_loop_hook[of "effective_plugins s1" "this_context s'" "HookError k x"] by auto
  from before_error have "unchanged_by_guards s s1" "unchanged_by_guards s1 s'"
    using assign_route_frame shouldNavigate_loop_frame by blast+
  with k show ?thesis by (auto simp: unchanged_by_guards_def)
next
  case (committed u s1 u' s2)
  then have k: "k = AfterNavigation"
    using afterNavigation_loop_hook[of "effective_plugins s1" "this_context s2" "HookError k x"] by auto
  from committed have "unchanged_by_guards s s1" "unchanged_by_guards s1 s2"
    using assign_route_frame shouldNavigate_loop_frame by blast+
  with k committed(6) show ?thesis by (auto simp: unchanged_by_guards_def commit_fields)
qed simp_all

text \<open>
  Claim C4. Let the target resolve and the first resolution succeed, and let \<open>p\<close> be a
  plugin of the effective list. If the \<^verbatim>\<open>shouldNavigate\<close> hook of \<open>p\<close> throws for the
  context the guard loop has reached (or the \<^verbatim>\<open>condition\<close> it returns throws), or the
  guard loop has ended with a route and the \<^verbatim>\<open>beforeNavigation\<close> hook of \<open>p\<close> throws
  (no hook of a plugin before \<open>p\<close> having thrown), then \<^verbatim>\<open>navigate\<close> is rejected with
  that exception and nothing is committed: the history, the document title and the
  events are those before the call. If instead the \<^verbatim>\<open>afterNavigation\<close> hook of \<open>p\<close>
  throws, \<^verbatim>\<open>navigate\<close> is rejected with that exception too, but the commit stands:
  the history entry was pushed, the title is the context's, and the event was
  dispatched with that context.
\<close>

theorem hook_exception_and_commit:
  assumes target: "target_url E s t = Some u0"
    and first: "assign_route E s u0 = (Inr (), s0)"
    and list: "effective_plugins s0 = ps1 @ p # ps2"
  shows
    "(shouldNavigate_loop E ps1 u0 s0 = (Inr u1, s1) \<and> shouldNavigate p = Some h \<and>
      h (this_context s1) = Inl x \<longrightarrow>
        navigate E s t = (Inl (HookError ShouldNavigate x), s1) \<and>
        history s1 = history s \<and> document_title s1 = document_title s \<and> events s1 = events s) \<and>
     (shouldNavigate_loop E ps1 u0 s0 = (Inr u1, s1) \<and> shouldNavigate p = Some h \<and>
      h (this_context s1) = Inr (Some g) \<and> condition g = Inl x \<longrightarrow>
        navigate E s t = (Inl (HookError Condition x), s1) \<and>
        history s1 = history s \<and> document_title s1 = document_title s \<and> events s1 = events s) \<and>
     (shouldNavigate_loop E (ps1 @ p # ps2) u0 s0 = (Inr u2, s2) \<and> this_route s2 \<noteq> None \<and>
      beforeNavigation_loop ps1 (this_context s2) = Inr () \<and> beforeNavigation p = Some hb \<and>
      hb (this_context s2) = Inl x \<longrightarrow>
        navigate E s t = (Inl (HookError BeforeNavigation x), s2) \<and>
        history s2 = history s \<and> document_title s2 = document_title s \<and> events s2 = events s) \<and>
     (shouldNavigate_loop E (ps1 @ p # ps2) u0 s0 = (Inr u2, s2) \<and> this_route s2 \<noteq> None \<and>
      beforeNavigation_loop (ps1 @ p # ps2) (this_context s2) = Inr () \<and>
      afterNavigation_loop ps1 (this_context s2) = Inr () \<and> afterNavigation p = Some ha \<and>
      ha (this_context s2) = Inl x \<longrightarrow>
        navigate E s t = (Inl (HookError AfterNavigation x), commit E s2 u2) \<and>
        history (commit E s2 u2) = history s @ [pathname u2 @ search u2] \<and>
        document_title (commit E s2 u2) = title (this_context s2) \<and>
        events (commit E s2 u2) = events s @ [this_context s2])"
proof -
  have f0: "unchanged_by_guards s s0" using first by (rule assign_route_frame)
  have guard: "navigate E s t = (Inl e, s1) \<and>
        history s1 = history s \<and> document_title s1 = document_title s \<and> events s1 = events s"
    if "shouldNavigate_loop E (ps1 @ p # ps2) u0 s0 = (Inl e, s1)" for e s1
  proof -
    from that have "unchanged_by_guards s0 s1" by (rule shouldNavigate_loop_frame)
    with f0 that target first list show ?thesis
      by (simp add: navigate_def unchanged_by_guards_def)
  qed
  have g1: "navigate E s t = (Inl (HookError ShouldNavigate x), s1) \<and>
        history s1 = history s \<and> document_title s1 = document_title s \<and> events s1 = events s"
    if "shouldNavigate_loop E ps1 u0 s0 = (Inr u1, s1)" "shouldNavigate p = Some h"
      "h (this_context s1) = Inl x"
    using guard[OF shouldNavigate_loop_throws[OF that]] .
  have g2: "navigate E s t = (Inl (HookError Condition x), s1) \<and>
        history s1 = history s \<and> document_title s1 = document_title s \<and> events s1 = events s"
    if "shouldNavigate_loop E ps1 u0 s0 = (Inr u1, s1)" "shouldNavigate p = Some h"
      "h (this_context s1) = Inr (Some g)" "condition g = Inl x"
    using guard[OF shouldNavigate_loop_condition_throws[OF that]] .
  have f2: "history s2 = history s \<and> document_title s2 = document_title s \<and> events s2 = events s"
    if "shouldNavigate_loop E (ps1 @ p # ps2) u0 s0 = (Inr u2, s2)"
  proof -
    from that have "unchanged_by_guards s0 s2" by (rule shouldNavigate_loop_frame)
    with f0 show ?thesis by (simp add: unchanged_by_guards_def)
  qed
  have b: "navigate E s t = (Inl (HookError BeforeNavigation x), s2) \<and>
        history s2 = history s \<and> document_title s2 = document_title s \<and> events s2 = events s"
    if l: "shouldNavigate_loop E (ps1 @ p # ps2) u0 s0 = (Inr u2, s2)" and r: "this_route s2 \<noteq> None"
      and h: "beforeNavigation_loop ps1 (this_context s2) = Inr ()" "beforeNavigation p = Some hb"
        "hb (this_context s2) = Inl x"
  proof -
    from r obtain r2 where "this_route s2 = Some r2" by auto
    with target first list l beforeNavigation_loop_throws[OF h, of ps2] f2[OF l] show ?thesis
      by (simp add: navigate_def)
  qed
  have a: "navigate E s t = (Inl (HookError AfterNavigation x), commit E s2 u2) \<and>
        history (commit E s2 u2) = history s @ [pathname u2 @ search u2] \<and>
        document_title (commit E s2 u2) = title (this_context s2) \<and>
        events (commit E s2 u2) = events s @ [this_context s2]"
    if l: "shouldNavigate_loop E (ps1 @ p # ps2) u0 s0 = (Inr u2, s2)" and r: "this_route s2 \<noteq> None"
      and bf: "beforeNavigation_loop (ps1 @ p # ps2) (this_context s2) = Inr ()"
      and h: "afterNavigation_loop ps1 (this_context s2) = Inr ()" "afterNavigation p = Some ha"
        "ha (this_context s2) = Inl x"
  proof -
    from r obtain r2 where "this_route s2 = Some r2" by auto
    with target first list l bf afterNavigation_loop_throws[OF h, of ps2] f2[OF l] show ?thesis
      by (simp add: navigate_def Let_def commit_fields)
  qed
  from g1 g2 b a show ?thesis by blast
qed

text \<open>
  Four pages, whose one plugin throws in \<^verbatim>\<open>shouldNavigate\<close>, in \<^verbatim>\<open>condition\<close>, in
  \<^verbatim>\<open>beforeNavigation\<close> and in \<^verbatim>\<open>afterNavigation\<close>.
\<close>

theorem hook_exception_and_commit_witness:
  "navigate app_env forbidden_page (Str ''/a'') =
     (Inl (HookError ShouldNavigate ''forbidden''),
      snd (assign_route app_env forbidden_page (app_url ''/a''))) \<and>
   history (snd (navigate app_env forbidden_page (Str ''/a''))) = [] \<and>
   document_title (snd (navigate app_env forbidden_page (Str ''/a''))) = [] \<and>
   events (snd (navigate app_env forbidden_page (Str ''/a''))) = [] \<and>
   navigate app_env offline_page (Str ''/a'') =
     (Inl (HookError Condition ''offline''),
      snd (assign_route app_env offline_page (app_url ''/a''))) \<and>
   history (snd (navigate app_env offline_page (Str ''/a''))) = [] \<and>
   navigate app_env denied_page (Str ''/a'') =
     (Inl (HookError BeforeNavigation ''denied''),
      snd (assign_route app_env denied_page (app_url ''/a''))) \<and>
   history (snd (navigate app_env denied_page (Str ''/a''))) = [] \<and>
   document_title (snd (navigate app_env denied_page (Str ''/a''))) = [] \<and>
   events (snd (navigate app_env denied_page (Str ''/a''))) = [] \<and>
   fst (navigate app_env late_page (Str ''/a'')) = Inl (HookError AfterNavigation ''late'') \<and>
   history (snd (navigate app_env late_page (Str ''/a''))) = [''/a''] \<and>
   document_title (snd (navigate app_env late_page (Str ''/a''))) = ''/a'' \<and>
   map title (events (snd (navigate app_env late_page (Str ''/a'')))) = [''/a'']"
proof -
  let ?u = "app_url ''/a''"
  have tu: "target_url app_env r (Str ''/a'') = Some ?u" for r :: "string router"
    by (simp add: example_defs)
  have first: "assign_route app_env r ?u = (Inr (), snd (assign_route app_env r ?u))"
    if "fst (assign_route app_env r ?u) = Inr ()" for r :: "string router"
    using that by (metis prod.collapse)
  have e0: "shouldNavigate_loop app_env [] ?u r = (Inr ?u, r)" for r :: "string router"
    by simp
  have empty: "history forbidden_page = []" "document_title forbidden_page = []"
    "events forbidden_page = []" "history offline_page = []" "history denied_page = []"
    "document_title denied_page = []" "events denied_page = []" "history late_page = []"
    "events late_page = []"
    by (simp_all add: example_defs fixture_defs)
  \<comment> \<open>a throwing \<^verbatim>\<open>shouldNavigate\<close>\<close>
  let ?f = "snd (assign_route app_env forbidden_page ?u)"
  have f1: "assign_route app_env forbidden_page ?u = (Inr (), ?f)"
    by (rule first) (simp add: example_defs fixture_defs)
  have f2: "effective_plugins ?f = [] @ throws_guard # []"
    by (simp add: example_defs fixture_defs)
  have f3: "shouldNavigate throws_guard = Some (\<lambda>c. Inl ''forbidden'')"
    "(\<lambda>c. Inl ''forbidden'' :: exn + guard option) (this_context ?f) = Inl ''forbidden''"
    by (simp_all add: throws_guard_def no_hooks_def)
  note g = hook_exception_and_commit[OF tu f1 f2, THEN conjunct1, rule_format, OF conjI,
      OF e0 conjI, OF f3]
  \<comment> \<open>a throwing \<^verbatim>\<open>condition\<close>\<close>
  let ?o = "snd (assign_route app_env offline_page ?u)"
  let ?g = "\<lparr>condition = Inl ''offline'', redirect = ''/login''\<rparr> :: guard"
  have o1: "assign_route app_env offline_page ?u = (Inr (), ?o)"
    by (rule first) (simp add: example_defs fixture_defs)
  have o2: "effective_plugins ?o = [] @ throws_condition # []"
    by (simp add: example_defs fixture_defs)
  have o3: "shouldNavigate throws_condition = Some (\<lambda>c. Inr (Some ?g))"
    "(\<lambda>c. Inr (Some ?g) :: exn + guard option) (this_context ?o) = Inr (Some ?g)"
    "condition ?g = Inl ''offline''"
    by (simp_all add: throws_condition_def no_hooks_def)
  have c: "navigate app_env offline_page (Str ''/a'') = (Inl (HookError Condition ''offline''), ?o) \<and>
     history ?o = history offline_page \<and> document_title ?o = document_title offline_page \<and>
     events ?o = events offline_page"
    using hook_exception_and_commit[OF tu o1 o2, of ?u ?o _ "''offline''" ?g] e0 o3 by blast
  \<comment> \<open>a throwing \<^verbatim>\<open>beforeNavigation\<close>\<close>
  let ?d = "snd (assign_route app_env denied_page ?u)"
  have d1: "assign_route app_env denied_page ?u = (Inr (), ?d)"
    by (rule first) (simp add: example_defs fixture_defs)
  have d2: "effective_plugins ?d = [] @ throws_before # []"
    by (simp add: example_defs fixture_defs)
  have d3: "shouldNavigate_loop app_env ([] @ throws_before # []) ?u ?d = (Inr ?u, ?d)"
    "this_route ?d \<noteq> None" "beforeNavigation_loop [] (this_context ?d) = Inr ()"
    "beforeNavigation throws_before = Some (\<lambda>c. Inl ''denied'')"
    "(\<lambda>c. Inl ''denied'' :: exn + unit) (this_context ?d) = Inl ''denied''"
    by (simp_all add: example_defs fixture_defs loop_eval)
  have b: "navigate app_env denied_page (Str ''/a'') = (Inl (HookError BeforeNavigation ''denied''), ?d) \<and>
     history ?d = history denied_page \<and> document_title ?d = document_title denied_page \<and>
     events ?d = events denied_page"
    using hook_exception_and_commit[OF tu d1 d2, of _ _ _ "''denied''" _ ?u ?d] d3 by blast
  \<comment> \<open>a throwing \<^verbatim>\<open>afterNavigation\<close>\<close>
  let ?l = "snd (assign_route app_env late_page ?u)"
  have l1: "assign_route app_env late_page ?u = (Inr (), ?l)"
    by (rule first) (simp add: example_defs fixture_defs)
  have l2: "effective_plugins ?l = [] @ throws_after # []"
    by (simp add: example_defs fixture_defs)
  have l3: "shouldNavigate_loop app_env ([] @ throws_after # []) ?u ?l = (Inr ?u, ?l)"
    "this_route ?l \<noteq> None" "beforeNavigation_loop ([] @ throws_after # []) (this_context ?l) = Inr ()"
    "afterNavigation_loop [] (this_context ?l) = Inr ()"
    "afterNavigation throws_after = Some (\<lambda>c. Inl ''late'')"
    "(\<lambda>c. Inl ''late'' :: exn + unit) (this_context ?l) = Inl ''late''"
    by (simp_all add: example_defs fixture_defs loop_eval)
  have a: "navigate app_env late_page (Str ''/a'') =
       (Inl (HookError AfterNavigation ''late''), commit app_env ?l ?u) \<and>
     history (commit app_env ?l ?u) = history late_page @ [pathname ?u @ search ?u] \<and>
     document_title (commit app_env ?l ?u) = title (this_context ?l) \<and>
     events (commit app_env ?l ?u) = events late_page @ [this_context ?l]"
    using hook_exception_and_commit[OF tu l1 l2, of _ _ _ "''late''" _ ?u ?l] l3 by blast
  have lt: "title (this_context ?l) = ''/a''" "pathname ?u @ search ?u = ''/a''"
    by (simp_all add: example_defs fixture_defs)
  from g c b a empty lt show ?thesis by simp
qed

subsection \<open>Guards and redirects\<close>

lemma navigate_same_but_route_plugins:
  assumes rel: "same_but_route_plugins s s'"
    and target: "target_url E s t = Some u"
    and first: "effective_plugins (snd (assign_route E s' u)) =
                effective_plugins (snd (assign_route E s u))"
  shows "fst (navigate E s' t) = fst (navigate E s t) \<and>
         same_but_route_plugins (snd (navigate E s t)) (snd (navigate E s' t))"
proof -
  have t': "target_url E s' t = Some u"
    using target same_but_route_plugins_URL_in_base[OF rel, of E]
    by (simp add: target_url_def split: target.splits)
  obtain ra a where a: "assign_route E s u = (ra, a)" by (cases "assign_route E s u")
  obtain ra' a' where a': "assign_route E s' u = (ra', a')" by (cases "assign_route E s' u")
  from assign_route_same_but_route_plugins[OF rel, of E u] a a'
  have ra: "ra' = ra" and aa: "same_but_route_plugins a a'" by simp_all
  from first a a' have ps: "effective_plugins a' = effective_plugins a" by simp
  show ?thesis
  proof (cases ra)
    case (Inl e)
    with target t' a a' ra aa show ?thesis by (simp add: navigate_def)
  next
    case (Inr x)
    obtain rb b where b: "shouldNavigate_loop E (effective_plugins a) u a = (rb, b)"
      by (cases "shouldNavigate_loop E (effective_plugins a) u a")
    obtain rb' b' where b': "shouldNavigate_loop E (effective_plugins a) u a' = (rb', b')"
      by (cases "shouldNavigate_loop E (effective_plugins a) u a'")
    from shouldNavigate_loop_same_but_route_plugins[OF aa, of E "effective_plugins a" u] b b'
    have rb: "rb' = rb" and bb: "same_but_route_plugins b b'" by simp_all
    have ctx: "this_context b' = this_context b"
      and rt: "this_route b' = None \<longleftrightarrow> this_route b = None"
      using bb by (auto simp: same_but_route_plugins_def elim: option.rel_cases)
    show ?thesis
    proof (cases rb)
      case (Inl e)
      with target t' a a' ra Inr ps b b' rb bb show ?thesis by (simp add: navigate_def)
    next
      case (Inr v)
      note v = this
      show ?thesis
      proof (cases "this_route b")
        case None
        with rt have "this_route b' = None" by simp
        with None target t' a a' ra \<open>ra = Inr x\<close> ps b b' rb bb v show ?thesis
          by (simp add: navigate_def)
      next
        case (Some r)
        with rt obtain r' where "this_route b' = Some r'" by auto
        with Some target t' a a' ra \<open>ra = Inr x\<close> ps b b' rb bb v ctx
          commit_same_but_route_plugins[OF bb, of E v]
        show ?thesis
          by (simp add: navigate_def Let_def commit_fields split: sum.splits)
      qed
    qed
  qed
qed

text \<open>
  Claim C3, as stated, fails: after a redirect the guard loop does not continue over the
  plugin list of the newly resolved route. Here \<^verbatim>\<open>/a\<close> has two guards, which redirect
  to \<^verbatim>\<open>/b\<close> and to \<^verbatim>\<open>/c\<close>, and there are no other plugins: the effective list of the
  route \<^verbatim>\<open>/b\<close> is empty. After the first guard has redirected to \<^verbatim>\<open>/b\<close>, the second guard
  of \<^verbatim>\<open>/a\<close> still runs, and the navigation commits \<^verbatim>\<open>/c\<close>.
\<close>

theorem guard_loop_keeps_first_list_counterexample:
  "effective_plugins (snd (assign_route app_env two_guards (app_url ''/b''))) = [] \<and>
   fst (navigate app_env two_guards (Str ''/a'')) = Inr () \<and>
   map_option path (this_route (snd (navigate app_env two_guards (Str ''/a'')))) = Some ''/c'' \<and>
   history (snd (navigate app_env two_guards (Str ''/a''))) = [''/c'']"
  by (simp add: example_defs fixture_defs loop_eval Let_def)

text \<open>
  Claim C3, amended. The effective plugin list is the global plugins followed by the
  plugins of the route resolved first (for the target, else for the fallback), in their
  order and with duplicates kept; it is computed once, before the guard loop. Let \<open>p\<close>
  be a plugin of that list, let the loop over the plugins before \<open>p\<close> have ended
  without an exception, and let the guard of \<open>p\<close>, for the context the loop has
  reached, have a false condition. Then the target is recomputed from the redirect of
  \<open>p\<close>, the route is resolved again for it, with the fallback, and the guard loop goes
  on over the plugins after \<open>p\<close> in that same list, from the router the new resolution
  left; the rest of the navigation, with its before and after phases, runs over the
  same list. The plugins of the newly resolved route are not consulted: a router that
  differs at most in the plugins of its routes, and has the same effective list at the
  first resolution, gives the same result and ends in a state that differs at most in
  those plugins.
\<close>

theorem plugins_fixed_at_first_resolution:
  assumes target: "target_url E s t = Some u"
    and first: "assign_route E s u = (Inr (), s0)"
    and list: "(case cfg_plugins (this_config s) of None \<Rightarrow> [] | Some ps \<Rightarrow> ps) @
               (case this_route s0 of
                  None \<Rightarrow> []
                | Some r \<Rightarrow> (case route_plugins r of None \<Rightarrow> [] | Some ps \<Rightarrow> ps)) =
               ps1 @ p # ps2"
    and reached: "shouldNavigate_loop E ps1 u s0 = (Inr u1, s1)"
    and hook: "shouldNavigate p = Some h" "h (this_context s1) = Inr (Some g)"
    and false: "condition g = Inr False"
    and url: "URL_in_base E s1 (redirect g) = Some l"
  shows "navigate E s t =
           (case assign_route E s1 l of
              (Inl e, s2) \<Rightarrow> (Inl e, s2)
            | (Inr _, s2) \<Rightarrow>
                (case shouldNavigate_loop E ps2 l s2 of
                   (Inl e, s3) \<Rightarrow> (Inl e, s3)
                 | (Inr u', s3) \<Rightarrow> finish_navigation E (ps1 @ p # ps2) u' s3)) \<and>
         (same_but_route_plugins s s' \<and>
          effective_plugins (snd (assign_route E s' u)) = ps1 @ p # ps2 \<longrightarrow>
            fst (navigate E s' t) = fst (navigate E s t) \<and>
            same_but_route_plugins (snd (navigate E s t)) (snd (navigate E s' t)))"
proof -
  have "unchanged_by_guards s s0" using first by (rule assign_route_frame)
  then have "this_config s0 = this_config s" by (simp add: unchanged_by_guards_def)
  with list have ps: "effective_plugins s0 = ps1 @ p # ps2"
    by (simp add: effective_plugins_def)
  have st: "guard_step E p u1 s1 =
      (case assign_route E s1 l of (Inl e, s2) \<Rightarrow> (Inl e, s2) | (Inr _, s2) \<Rightarrow> (Inr l, s2))"
    using hook false url by (simp add: guard_step_eq)
  have "navigate E s t =
           (case assign_route E s1 l of
              (Inl e, s2) \<Rightarrow> (Inl e, s2)
            | (Inr _, s2) \<Rightarrow>
                (case shouldNavigate_loop E ps2 l s2 of
                   (Inl e, s3) \<Rightarrow> (Inl e, s3)
                 | (Inr u', s3) \<Rightarrow> finish_navigation E (ps1 @ p # ps2) u' s3))"
    by (simp add: navigate_finish[OF target first] ps shouldNavigate_loop_append reached
        shouldNavigate_loop_Cons st split: prod.splits sum.splits)
  moreover have "fst (navigate E s' t) = fst (navigate E s t) \<and>
            same_but_route_plugins (snd (navigate E s t)) (snd (navigate E s' t))"
    if "same_but_route_plugins s s'" "effective_plugins (snd (assign_route E s' u)) = ps1 @ p # ps2"
    using navigate_same_but_route_plugins[OF that(1) target] that(2) ps first by simp
  ultimately show ?thesis by blast
qed

text \<open>
  In the first router the guard that fails is the second guard of \<^verbatim>\<open>/a\<close>: it runs
  after the first has redirected to \<^verbatim>\<open>/b\<close>, for the context of \<^verbatim>\<open>/b\<close>, and the
  navigation commits \<^verbatim>\<open>/c\<close>. The two other routers differ in the plugins of \<^verbatim>\<open>/b\<close>, to
  which the guard of \<^verbatim>\<open>/a\<close> redirects: the guard of \<^verbatim>\<open>/b\<close> does not run, and both
  commit \<^verbatim>\<open>/b\<close>.
\<close>

theorem plugins_fixed_at_first_resolution_witness:
  "effective_plugins (snd (assign_route app_env two_guards (app_url ''/a''))) =
     [redirects_to ''/b''] @ redirects_to ''/c'' # [] \<and>
   fst (shouldNavigate_loop app_env [redirects_to ''/b''] (app_url ''/a'')
     (snd (assign_route app_env two_guards (app_url ''/a'')))) = Inr (app_url ''/b'') \<and>
   navigate app_env two_guards (Str ''/a'') =
     finish_navigation app_env [redirects_to ''/b'', redirects_to ''/c''] (app_url ''/c'')
       (snd (assign_route app_env (snd (assign_route app_env
          (snd (assign_route app_env two_guards (app_url ''/a''))) (app_url ''/b''))) (app_url ''/c''))) \<and>
   fst (navigate app_env two_guards (Str ''/a'')) = Inr () \<and>
   history (snd (navigate app_env two_guards (Str ''/a''))) = [''/c''] \<and>
   same_but_route_plugins guarded_a guarded_a_b \<and>
   map_option path (this_route (snd (navigate app_env guarded_a (Str ''/a'')))) = Some ''/b'' \<and>
   fst (navigate app_env guarded_a_b (Str ''/a'')) = fst (navigate app_env guarded_a (Str ''/a'')) \<and>
   same_but_route_plugins (snd (navigate app_env guarded_a (Str ''/a'')))
     (snd (navigate app_env guarded_a_b (Str ''/a'')))"
proof -
  let ?u = "app_url ''/a''"
  let ?gb = "\<lparr>condition = Inr False, redirect = ''/b''\<rparr> :: guard"
  let ?gc = "\<lparr>condition = Inr False, redirect = ''/c''\<rparr> :: guard"
  let ?hb = "\<lambda>c. Inr (Some ?gb) :: exn + guard option"
  let ?hc = "\<lambda>c. Inr (Some ?gc) :: exn + guard option"
  have tu: "target_url app_env r (Str ''/a'') = Some ?u" for r :: "string router"
    by (simp add: example_defs)
  have hb: "shouldNavigate (redirects_to ''/b'') = Some ?hb" "condition ?gb = Inr False"
    by (simp_all add: redirects_to_def no_hooks_def)
  have hc: "shouldNavigate (redirects_to ''/c'') = Some ?hc" "condition ?gc = Inr False"
    by (simp_all add: redirects_to_def no_hooks_def)
  \<comment> \<open>the second guard of \<^verbatim>\<open>/a\<close> runs after the first has redirected to \<^verbatim>\<open>/b\<close>\<close>
  let ?t0 = "snd (assign_route app_env two_guards ?u)"
  let ?t1 = "snd (assign_route app_env ?t0 (app_url ''/b''))"
  let ?t2 = "snd (assign_route app_env ?t1 (app_url ''/c''))"
  have e: "effective_plugins ?t0 = [redirects_to ''/b''] @ redirects_to ''/c'' # []"
    by (simp add: example_defs fixture_defs)
  have "fst (assign_route app_env two_guards ?u) = Inr ()"
    by (simp add: example_defs fixture_defs)
  then have t1: "assign_route app_env two_guards ?u = (Inr (), ?t0)" by (metis prod.collapse)
  have t2: "(case cfg_plugins (this_config two_guards) of None \<Rightarrow> [] | Some ps \<Rightarrow> ps) @
            (case this_route ?t0 of
               None \<Rightarrow> []
             | Some r \<Rightarrow> (case route_plugins r of None \<Rightarrow> [] | Some ps \<Rightarrow> ps)) =
            [redirects_to ''/b''] @ redirects_to ''/c'' # []"
    by (simp add: example_defs fixture_defs)
  have t3: "shouldNavigate_loop app_env [redirects_to ''/b''] ?u ?t0 = (Inr (app_url ''/b''), ?t1)"
    by (simp add: example_defs fixture_defs loop_eval)
  have t4: "?hc (this_context ?t1) = Inr (Some ?gc)"
    "URL_in_base app_env ?t1 (redirect ?gc) = Some (app_url ''/c'')"
    by (simp_all add: example_defs fixture_defs)
  have t5: "(case assign_route app_env ?t1 (app_url ''/c'') of
              (Inl e, s2) \<Rightarrow> (Inl e, s2)
            | (Inr _, s2) \<Rightarrow>
                (case shouldNavigate_loop app_env [] (app_url ''/c'') s2 of
                   (Inl e, s3) \<Rightarrow> (Inl e, s3)
                 | (Inr u', s3) \<Rightarrow>
                     finish_navigation app_env ([redirects_to ''/b''] @ redirects_to ''/c'' # []) u' s3)) =
            finish_navigation app_env [redirects_to ''/b'', redirects_to ''/c''] (app_url ''/c'') ?t2"
    by (simp add: example_defs fixture_defs)
  have t6: "fst (finish_navigation app_env [redirects_to ''/b'', redirects_to ''/c''] (app_url ''/c'') ?t2)
              = Inr ()"
    "history (snd (finish_navigation app_env [redirects_to ''/b'', redirects_to ''/c'']
       (app_url ''/c'') ?t2)) = [''/c'']"
    by (simp_all add: finish_navigation_def example_defs fixture_defs Let_def)
  from plugins_fixed_at_first_resolution[OF tu t1 t2 t3 hc(1) t4(1) hc(2) t4(2),
      THEN conjunct1] t5
  have two: "navigate app_env two_guards (Str ''/a'') =
     finish_navigation app_env [redirects_to ''/b'', redirects_to ''/c''] (app_url ''/c'') ?t2"
    by simp
  \<comment> \<open>the guard of \<^verbatim>\<open>/b\<close> in the second router never runs\<close>
  let ?a0 = "snd (assign_route app_env guarded_a ?u)"
  have "fst (assign_route app_env guarded_a ?u) = Inr ()"
    by (simp add: example_defs fixture_defs)
  then have a1: "assign_route app_env guarded_a ?u = (Inr (), ?a0)" by (metis prod.collapse)
  have a2: "(case cfg_plugins (this_config guarded_a) of None \<Rightarrow> [] | Some ps \<Rightarrow> ps) @
            (case this_route ?a0 of
               None \<Rightarrow> []
             | Some r \<Rightarrow> (case route_plugins r of None \<Rightarrow> [] | Some ps \<Rightarrow> ps)) =
            [] @ redirects_to ''/b'' # []"
    by (simp add: example_defs fixture_defs)
  have a3: "shouldNavigate_loop app_env [] ?u ?a0 = (Inr ?u, ?a0)"
    "?hb (this_context ?a0) = Inr (Some ?gb)"
    "URL_in_base app_env ?a0 (redirect ?gb) = Some (app_url ''/b'')"
    by (simp_all add: example_defs fixture_defs)
  have a4: "same_but_route_plugins guarded_a guarded_a_b"
    "effective_plugins (snd (assign_route app_env guarded_a_b ?u)) = [] @ redirects_to ''/b'' # []"
    by (simp_all add: example_defs fixture_defs same_but_route_plugins_def same_but_plugins_def)
  have a5: "map_option path (this_route (snd (navigate app_env guarded_a (Str ''/a'')))) = Some ''/b''"
    by (simp add: example_defs fixture_defs loop_eval Let_def)
  from plugins_fixed_at_first_resolution[OF tu a1 a2 a3(1) hb(1) a3(2) hb(2) a3(3),
      of guarded_a_b, THEN conjunct2] a4
  have same: "fst (navigate app_env guarded_a_b (Str ''/a'')) = fst (navigate app_env guarded_a (Str ''/a''))"
    "same_but_route_plugins (snd (navigate app_env guarded_a (Str ''/a'')))
       (snd (navigate app_env guarded_a_b (Str ''/a'')))"
    by blast+
  from e t3 two t6 a4(1) a5 same show ?thesis by simp
qed

text \<open>
  Claim C5, as stated, fails: a guard that redirects to \<^verbatim>\<open>/login\<close> does not decide the
  committed route when a later guard of the list fails too. Here the first guard of
  \<^verbatim>\<open>/members\<close> redirects to \<^verbatim>\<open>/login\<close>, which has a route, and the second to
  \<^verbatim>\<open>/terms\<close>: the history entry, the title and the event are those of \<^verbatim>\<open>/terms\<close>.
\<close>

theorem later_guard_overrides_login_counterexample:
  "effective_plugins (snd (assign_route app_env members_terms (app_url ''/members''))) =
     [redirects_to ''/login'', redirects_to ''/terms''] \<and>
   map_option path (fst (matchRoute app_env members_terms (app_url ''/login''))) = Some ''/login'' \<and>
   fst (navigate app_env members_terms (Str ''/members'')) = Inr () \<and>
   map_option path (this_route (snd (navigate app_env members_terms (Str ''/members'')))) = Some ''/terms'' \<and>
   history (snd (navigate app_env members_terms (Str ''/members''))) = [''/terms''] \<and>
   document_title (snd (navigate app_env members_terms (Str ''/members''))) = ''/terms'' \<and>
   map title (events (snd (navigate app_env members_terms (Str ''/members'')))) = [''/terms'']"
  by (simp add: example_defs fixture_defs loop_eval Let_def)

text \<open>
  Claim C5, amended. Let a plugin of the effective list return, for the context the loop
  has reached, a guard whose condition is false and whose redirect is \<^verbatim>\<open>/login\<close>; let
  \<^verbatim>\<open>/login\<close> resolve to a URL that a route matches; let the guards of the plugins after
  it pass, and no \<^verbatim>\<open>beforeNavigation\<close> hook throw. Then the navigation commits the route
  matching \<^verbatim>\<open>/login\<close>, not the requested URL: the current route and context are the
  ones \<^verbatim>\<open>_matchRoute\<close> gives for the \<^verbatim>\<open>/login\<close> URL, the history entry pushed is that
  URL's path and query, the title is that context's, and the event carries it.
\<close>

theorem guard_redirect_commits_login:
  assumes tu: "target_url E s t = Some u0"
    and ar: "assign_route E s u0 = (Inr (), s0)"
    and ps: "effective_plugins s0 = ps1 @ p # ps2"
    and l1: "shouldNavigate_loop E ps1 u0 s0 = (Inr u1, s1)"
    and hk: "shouldNavigate p = Some h"
    and hr: "h (this_context s1) = Inr (Some g)"
    and gc: "condition g = Inr False"
    and gr: "redirect g = ''/login''"
    and lg: "URL_in_base E s1 ''/login'' = Some l"
    and mr: "matchRoute E s1 l = (Some r, s2)"
    and later: "list_all (guard_passes (this_context s2)) ps2"
    and before: "beforeNavigation_loop (effective_plugins s0) (this_context s2) = Inr ()"
  shows "this_route (snd (navigate E s t)) = Some r \<and>
         this_context (snd (navigate E s t)) = this_context s2 \<and>
         history (snd (navigate E s t)) = history s @ [pathname l @ search l] \<and>
         document_title (snd (navigate E s t)) = title (this_context s2) \<and>
         events (snd (navigate E s t)) = events s @ [this_context s2]"
proof -
  let ?s2 = "s2\<lparr>this_route := Some r\<rparr>"
  have a2: "assign_route E s1 l = (Inr (), ?s2)"
    using mr by (simp add: assign_route_def)
  have step: "guard_step E p u1 s1 = (Inr l, ?s2)"
    using hk hr gc gr lg a2 by (simp add: guard_step_eq)
  have rest: "shouldNavigate_loop E ps2 l ?s2 = (Inr l, ?s2)"
    using later by (intro shouldNavigate_loop_passes) simp
  have loop: "shouldNavigate_loop E (effective_plugins s0) u0 s0 = (Inr l, ?s2)"
    by (simp add: ps shouldNavigate_loop_append l1 shouldNavigate_loop_Cons step rest)
  have nav: "snd (navigate E s t) = commit E ?s2 l"
    using tu ar loop before by (simp add: navigate_def Let_def split: sum.splits)
  have "unchanged_by_guards s s0" "unchanged_by_guards s0 s1" "unchanged_by_guards s1 ?s2"
    using ar l1 a2 assign_route_frame shouldNavigate_loop_frame by blast+
  then show ?thesis
    by (simp add: nav commit_fields unchanged_by_guards_def)
qed

theorem guard_redirect_commits_login_witness:
  "target_url app_env members (Str ''/members'') = Some (app_url ''/members'') \<and>
   assign_route app_env members (app_url ''/members'') =
     (Inr (), snd (assign_route app_env members (app_url ''/members''))) \<and>
   effective_plugins (snd (assign_route app_env members (app_url ''/members''))) =
     [] @ redirects_to ''/login'' # [] \<and>
   URL_in_base app_env (snd (assign_route app_env members (app_url ''/members''))) ''/login'' =
     Some (app_url ''/login'') \<and>
   map_option path (this_route (snd (navigate app_env members (Str ''/members'')))) = Some ''/login'' \<and>
   history (snd (navigate app_env members (Str ''/members''))) = [''/login''] \<and>
   document_title (snd (navigate app_env members (Str ''/members''))) = ''/login'' \<and>
   map title (events (snd (navigate app_env members (Str ''/members'')))) = [''/login'']"
proof -
  let ?s0 = "snd (assign_route app_env members (app_url ''/members''))"
  let ?g = "\<lparr>condition = Inr False, redirect = ''/login''\<rparr> :: guard"
  let ?s2 = "snd (matchRoute app_env ?s0 (app_url ''/login''))"
  have h1: "target_url app_env members (Str ''/members'') = Some (app_url ''/members'')"
    by (simp add: example_defs fixture_defs)
  have "fst (assign_route app_env members (app_url ''/members'')) = Inr ()"
    by (simp add: example_defs fixture_defs)
  then have h2: "assign_route app_env members (app_url ''/members'') = (Inr (), ?s0)"
    by (metis prod.collapse)
  have h3: "effective_plugins ?s0 = [] @ redirects_to ''/login'' # []"
    by (simp add: example_defs fixture_defs)
  have h4: "shouldNavigate_loop app_env [] (app_url ''/members'') ?s0 = (Inr (app_url ''/members''), ?s0)"
    by simp
  have h5: "shouldNavigate (redirects_to ''/login'') = Some (\<lambda>c. Inr (Some ?g))"
    by (simp add: redirects_to_def no_hooks_def)
  have h6: "(\<lambda>c. Inr (Some ?g)) (this_context ?s0) = Inr (Some ?g)" by simp
  have h7: "condition ?g = Inr False" "redirect ?g = ''/login''" by simp_all
  have h8: "URL_in_base app_env ?s0 ''/login'' = Some (app_url ''/login'')"
    by (simp add: example_defs fixture_defs)
  have "fst (matchRoute app_env ?s0 (app_url ''/login'')) = Some (page ''/login'' None)"
    by (simp add: example_defs fixture_defs)
  then have h9: "matchRoute app_env ?s0 (app_url ''/login'') = (Some (page ''/login'' None), ?s2)"
    by (metis prod.collapse)
  have h10: "list_all (guard_passes (this_context ?s2)) []" by simp
  have h11: "beforeNavigation_loop (effective_plugins ?s0) (this_context ?s2) = Inr ()"
    by (simp add: example_defs fixture_defs)
  have c: "title (this_context ?s2) = ''/login''" "history members = []" "events members = []"
    "pathname (app_url ''/login'') @ search (app_url ''/login'') = ''/login''"
    "path (page ''/login'' None) = ''/login''"
    by (simp_all add: example_defs fixture_defs)
  from guard_redirect_commits_login[OF h1 h2 h3 h4 h5 h6 h7 h8 h9 h10 h11] h1 h2 h3 h8 c
  show ?thesis by simp
qed

subsection \<open>Navigating twice\<close>

text \<open>
  Claim C8. Hooks, conditions and title functions are functions of their arguments. Let a
  call of \<^verbatim>\<open>navigate\<close> be fulfilled, for a URL that is current already: a route matches
  it (or the fallback), as one did when it became current, and the call leaves the base
  URL of the document where it was, as it does when the document's URL does not move.
  Then a second call with the same argument is fulfilled too, the two calls dispatch
  exactly two events between them, and both events carry the same context, which is the
  current context after each call.
\<close>

theorem navigate_twice:
  assumes first: "navigate E s t = (Inr (), s1)"
    and target: "target_url E s t = Some u"
    and routable: "this_route (snd (assign_route E s u)) \<noteq> None"
    and base: "get_baseUrl E s1 = get_baseUrl E s"
  shows "\<exists>s2. navigate E s1 t = (Inr (), s2) \<and> this_context s2 = this_context s1 \<and>
              events s2 = events s @ [this_context s1, this_context s1]"
  using first
proof (cases rule: navigate_cases)
  case (committed u0 a u' b)
  from committed(1) target have u0: "u0 = u" by simp
  note a = committed(2)[unfolded u0]
  note loop = committed(3)[unfolded u0]
  have fr: "unchanged_by_guards s a" "unchanged_by_guards a b"
    using a loop assign_route_frame shouldNavigate_loop_frame by blast+
  have s1: "this_config s1 = this_config s" "this_routes s1 = this_routes s"
    "this_context s1 = this_context b" "events s1 = events s @ [this_context b]"
    using fr committed(6) by (simp_all add: commit_fields unchanged_by_guards_def)
  have t1: "target_url E s1 t = Some u"
    using target base by (simp add: target_url_def URL_in_base_def split: target.splits)
  from routable a have "this_route a \<noteq> None" by simp
  with s1 base a obtain a' where a': "assign_route E s1 u = (Inr (), a')" "same_core E a a'"
    using assign_route_routable_same_core[of s s1 E u a] by auto
  obtain r' b' where loop': "shouldNavigate_loop E (effective_plugins a') u a' = (r', b')"
    by (cases "shouldNavigate_loop E (effective_plugins a') u a'")
  have ps: "effective_plugins a' = effective_plugins a"
    using a'(2) by (simp add: same_core_plugins)
  from shouldNavigate_loop_same_core[OF a'(2), of "effective_plugins a" u] loop loop' ps
  have r': "r' = Inr u'" and bb: "same_core E b b'" by simp_all
  have fr': "unchanged_by_guards s1 a'" "unchanged_by_guards a' b'"
    using a' loop' assign_route_frame shouldNavigate_loop_frame by blast+
  have ctx: "this_context b' = this_context b" and rt: "this_route b' = this_route b"
    using bb by (simp_all add: same_core_def)
  have "navigate E s1 t = (Inr (), commit E b' u')"
    using t1 a' loop' r' ps ctx rt committed(4,5,7)
    by (auto simp: navigate_def Let_def commit_fields split: sum.splits)
  moreover have "this_context (commit E b' u') = this_context s1"
    by (simp add: commit_fields ctx s1)
  moreover have "events (commit E b' u') = events s @ [this_context s1, this_context s1]"
    using fr' by (simp add: commit_fields ctx s1 unchanged_by_guards_def)
  ultimately show ?thesis by blast
qed simp_all

theorem navigate_twice_witness:
  "navigate app_env one_page (Str ''/a'') = (Inr (), at_a) \<and>
   target_url app_env one_page (Str ''/a'') = Some (app_url ''/a'') \<and>
   this_route (snd (assign_route app_env one_page (app_url ''/a''))) \<noteq> None \<and>
   get_baseUrl app_env at_a = get_baseUrl app_env one_page \<and>
   (\<exists>s2. navigate app_env at_a (Str ''/a'') = (Inr (), s2) \<and> this_context s2 = this_context at_a \<and>
      events s2 = events one_page @ [this_context at_a, this_context at_a])"
proof -
  have "fst (navigate app_env one_page (Str ''/a'')) = Inr ()"
    by (simp add: example_defs fixture_defs)
  then have h1: "navigate app_env one_page (Str ''/a'') = (Inr (), at_a)"
    unfolding at_a_def by (metis prod.collapse)
  have h: "target_url app_env one_page (Str ''/a'') = Some (app_url ''/a'')"
    "this_route (snd (assign_route app_env one_page (app_url ''/a''))) \<noteq> None"
    "get_baseUrl app_env at_a = get_baseUrl app_env one_page"
    by (simp_all add: example_defs fixture_defs)
  from h1 h navigate_twice[OF h1 h] show ?thesis by blast
qed

end
